theory Spec2Isabelle
  imports Complex_Main "HOL-Library.Log_Nat"
begin

section \<open>JavaScript numbers\<close>

text \<open>
  The detector (\<^verbatim>\<open>deepfakeDetector.ts\<close>) computes with JavaScript numbers, that is IEEE 754
  binary64 values. A finite value is kept as the rational it denotes; the two
  infinities and NaN are separate constructors. The two zeros are identified: the
  detector never divides by a value that can be zero and never inspects the sign of a
  zero. Reading an array out of range gives \<^verbatim>\<open>undefined\<close>, which every use in the
  detector converts to NaN by arithmetic, so \<^verbatim>\<open>undefined\<close> is modelled as NaN.
\<close>

datatype number = Num rat | PInf | NInf | NaN

definition pow2 :: "int \<Rightarrow> rat" where
  "pow2 e = (if 0 \<le> e then 2 ^ nat e else 1 / 2 ^ nat (- e))"

text \<open>The binary exponent \<open>\<lfloor>log\<^sub>2 q\<rfloor>\<close> of a positive rational.\<close>

definition expo :: "rat \<Rightarrow> int" where
  "expo q = (if 1 \<le> q then int (floorlog 2 (nat \<lfloor>q\<rfloor>)) - 1
             else - int (floorlog 2 (nat (\<lceil>1 / q\<rceil> - 1))))"

text \<open>Rounding to the nearest integer, ties to the even one.\<close>

definition round_even :: "rat \<Rightarrow> int" where
  "round_even r = (let f = \<lfloor>r\<rfloor>; d = r - of_int f in
     if d < 1 / 2 then f else if 1 / 2 < d then f + 1 else if even f then f else f + 1)"

text \<open>
  Rounding a rational to the binary64 grid: 53 significant bits in the normal range,
  multiples of \<open>2\<^sup>-\<^sup>1\<^sup>0\<^sup>7\<^sup>4\<close> below \<open>2\<^sup>-\<^sup>1\<^sup>0\<^sup>2\<^sup>2\<close>; a result of magnitude \<open>2\<^sup>1\<^sup>0\<^sup>2\<^sup>4\<close> or more
  overflows to an infinity.
\<close>

definition quantize :: "rat \<Rightarrow> rat" where
  "quantize q = (if q = 0 then 0 else
     let u = pow2 (max (expo \<bar>q\<bar>) (- 1022) - 52) in of_int (round_even (q / u)) * u)"

definition rnd :: "rat \<Rightarrow> number" where
  "rnd q = (let r = quantize q in
     if pow2 1024 \<le> r then PInf else if r \<le> - pow2 1024 then NInf else Num r)"

fun fneg :: "number \<Rightarrow> number" where
  "fneg (Num a) = Num (- a)"
| "fneg PInf = NInf"
| "fneg NInf = PInf"
| "fneg NaN = NaN"

fun fabs :: "number \<Rightarrow> number" where
  "fabs (Num a) = Num \<bar>a\<bar>"
| "fabs PInf = PInf"
| "fabs NInf = PInf"
| "fabs NaN = NaN"

fun fadd :: "number \<Rightarrow> number \<Rightarrow> number" where
  "fadd (Num a) (Num b) = rnd (a + b)"
| "fadd NaN _ = NaN"
| "fadd _ NaN = NaN"
| "fadd PInf NInf = NaN"
| "fadd NInf PInf = NaN"
| "fadd PInf _ = PInf"
| "fadd _ PInf = PInf"
| "fadd NInf _ = NInf"
| "fadd _ NInf = NInf"

definition fsub :: "number \<Rightarrow> number \<Rightarrow> number" where
  "fsub a b = fadd a (fneg b)"

fun fmul :: "number \<Rightarrow> number \<Rightarrow> number" where
  "fmul (Num a) (Num b) = rnd (a * b)"
| "fmul NaN _ = NaN"
| "fmul _ NaN = NaN"
| "fmul (Num a) PInf = (if a = 0 then NaN else if 0 < a then PInf else NInf)"
| "fmul (Num a) NInf = (if a = 0 then NaN else if 0 < a then NInf else PInf)"
| "fmul PInf (Num b) = (if b = 0 then NaN else if 0 < b then PInf else NInf)"
| "fmul NInf (Num b) = (if b = 0 then NaN else if 0 < b then NInf else PInf)"
| "fmul PInf PInf = PInf"
| "fmul NInf NInf = PInf"
| "fmul PInf NInf = NInf"
| "fmul NInf PInf = NInf"

text \<open>
  Division. A zero divisor is taken as \<open>+0\<close>; the detector divides only by array
  lengths it has checked, by positive constants and by a denominator it has compared
  with zero.
\<close>

fun fdiv :: "number \<Rightarrow> number \<Rightarrow> number" where
  "fdiv (Num a) (Num b) =
     (if b = 0 then (if a = 0 then NaN else if 0 < a then PInf else NInf) else rnd (a / b))"
| "fdiv NaN _ = NaN"
| "fdiv _ NaN = NaN"
| "fdiv (Num a) PInf = Num 0"
| "fdiv (Num a) NInf = Num 0"
| "fdiv PInf (Num b) = (if 0 \<le> b then PInf else NInf)"
| "fdiv NInf (Num b) = (if 0 \<le> b then NInf else PInf)"
| "fdiv PInf PInf = NaN"
| "fdiv PInf NInf = NaN"
| "fdiv NInf PInf = NaN"
| "fdiv NInf NInf = NaN"

text \<open>The integer square root, by bisection on the binary digits.\<close>

function isqrt :: "nat \<Rightarrow> nat" where
  "isqrt n = (if n < 2 then n else
     let r = 2 * isqrt (n div 4) in if (r + 1) * (r + 1) \<le> n then r + 1 else r)"
  by pat_completeness auto
termination
  by (relation "measure id") auto

text \<open>
  \<^verbatim>\<open>Math.sqrt\<close>: the binary64 value nearest to the square root. With
  \<open>u\<close> the unit in the last place of the root, the rounded significand is
  \<open>\<lfloor>\<surd>q / u + 1/2\<rfloor> = (\<lfloor>\<surd>(4 q / u\<^sup>2)\<rfloor> + 1) div 2\<close>; a tie cannot occur for a binary64
  argument, and the root of a binary64 value neither overflows nor is subnormal.
\<close>

definition sqrt_rat :: "rat \<Rightarrow> rat" where
  "sqrt_rat q = (let u = pow2 (expo q div 2 - 52) in
     of_int ((int (isqrt (nat \<lfloor>4 * q / (u * u)\<rfloor>)) + 1) div 2) * u)"

fun fsqrt :: "number \<Rightarrow> number" where
  "fsqrt (Num a) = (if a < 0 then NaN else if a = 0 then Num 0 else Num (sqrt_rat a))"
| "fsqrt PInf = PInf"
| "fsqrt NInf = NaN"
| "fsqrt NaN = NaN"

text \<open>Comparisons: every comparison with NaN is false.\<close>

fun flt :: "number \<Rightarrow> number \<Rightarrow> bool" where
  "flt (Num a) (Num b) = (a < b)"
| "flt NaN _ = False"
| "flt _ NaN = False"
| "flt _ NInf = False"
| "flt PInf _ = False"
| "flt NInf _ = True"
| "flt _ PInf = True"

definition fgt :: "number \<Rightarrow> number \<Rightarrow> bool" where
  "fgt a b = flt b a"

text \<open>Strict equality \<^verbatim>\<open>===\<close> on numbers.\<close>

definition feq :: "number \<Rightarrow> number \<Rightarrow> bool" where
  "feq a b = (a \<noteq> NaN \<and> a = b)"

text \<open>\<^verbatim>\<open>Math.min\<close> and \<^verbatim>\<open>Math.max\<close> of two arguments: NaN if either is NaN.\<close>

definition fmin :: "number \<Rightarrow> number \<Rightarrow> number" where
  "fmin a b = (if a = NaN \<or> b = NaN then NaN else if flt b a then b else a)"

definition fmax :: "number \<Rightarrow> number \<Rightarrow> number" where
  "fmax a b = (if a = NaN \<or> b = NaN then NaN else if flt a b then b else a)"

text \<open>\<^verbatim>\<open>Math.round\<close>: \<open>\<lfloor>x + 1/2\<rfloor>\<close>, exact on every finite binary64 value.\<close>

fun jsround :: "number \<Rightarrow> number" where
  "jsround (Num a) = Num (of_int \<lfloor>a + 1 / 2\<rfloor>)"
| "jsround x = x"

text \<open>
  A \<^verbatim>\<open>for (let v = i; v < bound; v += step)\<close> loop visits these values of \<open>v\<close>.
  The detector's steps are the positive constants 4, 8 and 64.
\<close>

function forRange :: "nat \<Rightarrow> int \<Rightarrow> nat \<Rightarrow> nat list" where
  "forRange i bound step =
     (if step = 0 then [] else if int i < bound then i # forRange (i + step) bound step else [])"
  by pat_completeness auto
termination
  by (relation "measure (\<lambda>(i, bound, step). nat (bound - int i))") auto

text \<open>An array read: \<^verbatim>\<open>undefined\<close> (here NaN) out of range.\<close>

definition elemAt :: "number list \<Rightarrow> nat \<Rightarrow> number" where
  "elemAt xs i = (if i < length xs then xs ! i else NaN)"

text \<open>A read of the \<^verbatim>\<open>Uint8ClampedArray\<close> of pixel bytes.\<close>

definition px :: "nat list \<Rightarrow> nat \<Rightarrow> number" where
  "px pixels i = (if i < length pixels then Num (of_nat (pixels ! i)) else NaN)"

section \<open>Helpers of the detector\<close>

text \<open>
  \<^verbatim>\<open>calculateVariance\<close>. \<^verbatim>\<open>reduce\<close> without an initial value starts from the first
  element. \<^verbatim>\<open>Math.pow(d, 2)\<close> is the rounded product \<open>d * d\<close>.
\<close>

definition calculateVariance :: "number list \<Rightarrow> number" where
  "calculateVariance values = (if values = [] then Num 0 else
     let n = Num (of_nat (length values));
         mean = fdiv (foldl fadd (hd values) (tl values)) n
     in fdiv (foldl (\<lambda>sum val. fadd sum (fmul (fsub val mean) (fsub val mean))) (Num 0) values) n)"

definition corrStep :: "number \<Rightarrow> number \<Rightarrow> number \<times> number \<times> number \<Rightarrow> number \<times> number
    \<Rightarrow> number \<times> number \<times> number" where
  "corrStep meanX meanY acc p = (case acc of (numerator, sumX2, sumY2) \<Rightarrow>
     let dx = fsub (fst p) meanX; dy = fsub (snd p) meanY
     in (fadd numerator (fmul dx dy), fadd sumX2 (fmul dx dx), fadd sumY2 (fmul dy dy)))"

definition calculateCorrelation :: "number list \<Rightarrow> number list \<Rightarrow> number" where
  "calculateCorrelation x y = (if length x \<noteq> length y \<or> x = [] then Num 0 else
     let n = Num (of_nat (length x));
         meanX = fdiv (foldl fadd (hd x) (tl x)) n;
         meanY = fdiv (foldl fadd (hd y) (tl y)) n
     in case foldl (corrStep meanX meanY) (Num 0, Num 0, Num 0) (zip x y) of
          (numerator, sumX2, sumY2) \<Rightarrow>
            let denominator = fsqrt (fmul sumX2 sumY2)
            in if feq denominator (Num 0) then Num 0 else fabs (fdiv numerator denominator))"

definition periodMatches :: "number list \<Rightarrow> nat \<Rightarrow> nat" where
  "periodMatches values period =
     length (filter (\<lambda>i. flt (fabs (fsub (values ! i) (values ! (i - period)))) (rnd (5 / 100)))
       [period ..< length values])"

definition checkPeriodicity :: "number list \<Rightarrow> number" where
  "checkPeriodicity values = (if length values < 4 then Num 0 else
     foldl (\<lambda>periodicityScore period.
         if fgt (fdiv (Num (of_nat (periodMatches values period)))
                      (Num (of_nat (length values - period)))) (rnd (8 / 10))
         then fmax periodicityScore (rnd (9 / 10)) else periodicityScore)
       (Num 0) [1 ..< length values div 2 + 1])"

definition countEdges :: "number list \<Rightarrow> nat \<Rightarrow> nat" where
  "countEdges region regionSize =
     length (filter (\<lambda>i. let col = i mod regionSize in
                 0 < col \<and> int col < int regionSize - 1 \<and>
                 fgt (fabs (fsub (region ! i) (region ! (i - 1)))) (rnd (1 / 10)))
       [1 ..< length region - 1])"

section \<open>The four analyzers\<close>

text \<open>The luma of \<^verbatim>\<open>analyzeFrequencyDomain\<close>: the channels are divided by 255 first.\<close>

definition lumaAt :: "nat list \<Rightarrow> nat \<Rightarrow> number" where
  "lumaAt pixels i =
     (let r = fdiv (px pixels i) (Num 255);
          g = fdiv (px pixels (i + 1)) (Num 255);
          b = fdiv (px pixels (i + 2)) (Num 255)
      in fadd (fadd (fmul (rnd (299 / 1000)) r) (fmul (rnd (587 / 1000)) g))
              (fmul (rnd (114 / 1000)) b))"

text \<open>
  The grayscale of \<^verbatim>\<open>detectCompressionArtifacts\<close> and \<^verbatim>\<open>analyzeTextureConsistency\<close>:
  the weighted sum is divided by 255 last.
\<close>

definition grayAt :: "nat list \<Rightarrow> nat \<Rightarrow> number" where
  "grayAt pixels i =
     (let r = px pixels i; g = px pixels (i + 1); b = px pixels (i + 2)
      in fdiv (fadd (fadd (fmul (rnd (299 / 1000)) r) (fmul (rnd (587 / 1000)) g))
                    (fmul (rnd (114 / 1000)) b)) (Num 255))"

definition lumaOf :: "nat list \<Rightarrow> number list" where
  "lumaOf pixels = map (lumaAt pixels) (forRange 0 (int (length pixels)) 4)"

definition grayOf :: "nat list \<Rightarrow> number list" where
  "grayOf pixels = map (grayAt pixels) (forRange 0 (int (length pixels)) 4)"

text \<open>The \<open>n \<times> n\<close> tile with top-left corner \<open>(bx, by)\<close>, row by row.\<close>

definition getBlock :: "number list \<Rightarrow> nat \<Rightarrow> nat \<Rightarrow> nat \<Rightarrow> nat \<Rightarrow> number list" where
  "getBlock luma width by bx n =
     concat (map (\<lambda>y. map (\<lambda>x. elemAt luma ((by + y) * width + (bx + x))) [0 ..< n]) [0 ..< n])"

definition blockFires :: "number list \<Rightarrow> bool" where
  "blockFires block =
     (flt (calculateVariance block) (rnd (1 / 100)) \<or> fgt (checkPeriodicity block) (rnd (7 / 10)))"

definition frequencyStep :: "number list \<Rightarrow> nat \<Rightarrow> nat \<Rightarrow> number \<Rightarrow> nat \<Rightarrow> number" where
  "frequencyStep luma width by frequencyScore bx =
     (if blockFires (getBlock luma width by bx 8)
      then fadd frequencyScore (rnd (1 / 10)) else frequencyScore)"

definition frequencyTotal :: "number list \<Rightarrow> nat \<Rightarrow> nat \<Rightarrow> number" where
  "frequencyTotal luma width height =
     foldl (\<lambda>score by. foldl (frequencyStep luma width by) score (forRange 0 (int width - 8) 8))
       (Num 0) (forRange 0 (int height - 8) 8)"

definition analyzeFrequencyDomain :: "nat list \<Rightarrow> nat \<Rightarrow> nat \<Rightarrow> number" where
  "analyzeFrequencyDomain pixels width height =
     fmin (Num 1) (fdiv (frequencyTotal (lumaOf pixels) width height) (Num 10))"

definition boundaryFires :: "number list \<Rightarrow> nat \<Rightarrow> nat \<Rightarrow> nat \<Rightarrow> bool" where
  "boundaryFires gray width by bx =
     (let boundary = map (\<lambda>i. elemAt gray (by * width + (bx + i))) [0 ..< 4];
          inside = map (\<lambda>i. elemAt gray ((by + 2) * width + (bx + i))) [0 ..< 4];
          boundaryVar = calculateVariance boundary;
          insideVar = calculateVariance inside
      in fgt (fabs (fsub boundaryVar insideVar)) (rnd (5 / 100)))"

definition artifactStep :: "number list \<Rightarrow> nat \<Rightarrow> nat \<Rightarrow> number \<Rightarrow> nat \<Rightarrow> number" where
  "artifactStep gray width by artifactScore bx =
     (if boundaryFires gray width by bx
      then fadd artifactScore (rnd (5 / 100)) else artifactScore)"

definition artifactTotal :: "number list \<Rightarrow> nat \<Rightarrow> nat \<Rightarrow> number" where
  "artifactTotal gray width height =
     foldl (\<lambda>score by. foldl (artifactStep gray width by) score (forRange 8 (int width) 8))
       (Num 0) (forRange 8 (int height) 8)"

definition detectCompressionArtifacts :: "nat list \<Rightarrow> nat \<Rightarrow> nat \<Rightarrow> number" where
  "detectCompressionArtifacts pixels width height =
     fmin (Num 1) (artifactTotal (grayOf pixels) width height)"

text \<open>
  The texture loop carries the running score and the array \<^verbatim>\<open>regions\<close> of the
  variances pushed so far. \<^verbatim>\<open>edgeCount < regionSize / 2\<close> compares with 32.
\<close>

definition regionSmooth :: "number list \<Rightarrow> bool" where
  "regionSmooth region =
     (flt (calculateVariance region) (rnd (1 / 100)) \<and> countEdges region 64 < 32)"

definition textureStep :: "number list \<Rightarrow> nat \<Rightarrow> nat \<Rightarrow> number \<times> number list \<Rightarrow> nat
    \<Rightarrow> number \<times> number list" where
  "textureStep gray width ry acc rx = (case acc of (textureScore, regions) \<Rightarrow>
     let region = getBlock gray width ry rx 64
     in ((if regionSmooth region then fadd textureScore (rnd (1 / 10)) else textureScore),
         regions @ [calculateVariance region]))"

definition textureScan :: "number list \<Rightarrow> nat \<Rightarrow> nat \<Rightarrow> number \<times> number list" where
  "textureScan gray width height =
     foldl (\<lambda>acc ry. foldl (textureStep gray width ry) acc (forRange 0 (int width - 64) 64))
       (Num 0, []) (forRange 0 (int height - 64) 64)"

definition analyzeTextureConsistency :: "nat list \<Rightarrow> nat \<Rightarrow> nat \<Rightarrow> number" where
  "analyzeTextureConsistency pixels width height =
     (case textureScan (grayOf pixels) width height of (textureScore, regions) \<Rightarrow>
        fmin (Num 1)
          (if flt (calculateVariance regions) (rnd (2 / 100))
           then fadd textureScore (rnd (2 / 10)) else textureScore))"

text \<open>
  \<^verbatim>\<open>detectColorAnomalies\<close> samples the pixels \<open>i\<close> with
  \<open>i < min (pixels.length / 4) 1000\<close>.
\<close>

definition sampleCount :: "nat list \<Rightarrow> nat" where
  "sampleCount pixels = min ((length pixels + 3) div 4) 1000"

definition channelValues :: "nat list \<Rightarrow> nat \<Rightarrow> number list" where
  "channelValues pixels c =
     map (\<lambda>i. fdiv (px pixels (i * 4 + c)) (Num 255)) [0 ..< sampleCount pixels]"

definition detectColorAnomalies :: "nat list \<Rightarrow> number" where
  "detectColorAnomalies pixels =
     (let rValues = channelValues pixels 0;
          gValues = channelValues pixels 1;
          bValues = channelValues pixels 2;
          rgCorr = calculateCorrelation rValues gValues;
          rbCorr = calculateCorrelation rValues bValues;
          gbCorr = calculateCorrelation gValues bValues;
          colorScore1 = (if fgt rgCorr (rnd (95 / 100)) \<or> fgt rbCorr (rnd (95 / 100))
                            \<or> fgt gbCorr (rnd (95 / 100))
                         then fadd (Num 0) (rnd (3 / 10)) else Num 0);
          colorScore2 = (if flt rgCorr (rnd (3 / 10)) \<or> flt rbCorr (rnd (3 / 10))
                            \<or> flt gbCorr (rnd (3 / 10))
                         then fadd colorScore1 (rnd (2 / 10)) else colorScore1)
      in fmin (Num 1) colorScore2)"

section \<open>The score combiner\<close>

datatype risk = low | medium | high

record details =
  frequencyAnomaly :: number
  compressionArtifacts :: number
  textureInconsistency :: number
  colorAnomalies :: number

record DeepfakeAnalysisResult =
  isFake :: bool
  confidence :: number
  riskLevel :: risk
  details :: details

definition combinedScore :: "number \<Rightarrow> number \<Rightarrow> number \<Rightarrow> number \<Rightarrow> number" where
  "combinedScore f c t col =
     fadd (fadd (fadd (fmul f (rnd (35 / 100))) (fmul c (rnd (25 / 100))))
                (fmul t (rnd (25 / 100))))
          (fmul col (rnd (15 / 100)))"

text \<open>The value \<^verbatim>\<open>confidence\<close> of the source before it is rounded for the result.\<close>

definition rawConfidence :: "number \<Rightarrow> number \<Rightarrow> number \<Rightarrow> number \<Rightarrow> number" where
  "rawConfidence f c t col =
     fmin (Num 100) (fmax (Num 0) (fmul (combinedScore f c t col) (Num 100)))"

definition classify :: "number \<Rightarrow> risk" where
  "classify conf = (if fgt conf (Num 70) then high else if fgt conf (Num 40) then medium else low)"

definition buildResult :: "number \<Rightarrow> number \<Rightarrow> number \<Rightarrow> number \<Rightarrow> DeepfakeAnalysisResult" where
  "buildResult f c t col =
     (let conf = rawConfidence f c t col in
      \<lparr> isFake = fgt conf (Num 50),
        confidence = jsround conf,
        riskLevel = classify conf,
        details = \<lparr> frequencyAnomaly = jsround (fmul f (Num 100)),
                    compressionArtifacts = jsround (fmul c (Num 100)),
                    textureInconsistency = jsround (fmul t (Num 100)),
                    colorAnomalies = jsround (fmul col (Num 100)) \<rparr> \<rparr>)"

text \<open>
  The part of \<^verbatim>\<open>analyzeImageForDeepfake\<close> that follows \<^verbatim>\<open>getImageData\<close>:
  \<open>pixels\<close>, \<open>width\<close> and \<open>height\<close> are \<^verbatim>\<open>imageData.data\<close>, \<^verbatim>\<open>canvas.width\<close> and
  \<^verbatim>\<open>canvas.height\<close>.
\<close>

definition analyzePixelData :: "nat list \<Rightarrow> nat \<Rightarrow> nat \<Rightarrow> DeepfakeAnalysisResult" where
  "analyzePixelData pixels width height =
     buildResult (analyzeFrequencyDomain pixels width height)
                 (detectCompressionArtifacts pixels width height)
                 (analyzeTextureConsistency pixels width height)
                 (detectColorAnomalies pixels)"

section \<open>The entry point and its canvas\<close>

text \<open>
  The argument of \<^verbatim>\<open>analyzeImageForDeepfake\<close> is an \<^verbatim>\<open>HTMLImageElement\<close>, given by its
  \<^verbatim>\<open>naturalWidth\<close>, its \<^verbatim>\<open>naturalHeight\<close> and its decoded RGBA pixels, or another
  \<^verbatim>\<open>CanvasImageSource\<close>, given by the RGBA pixels it yields when scaled onto 512 by 512.
  The promise is rejected when no 2D context can be obtained.
\<close>

datatype imageSource = HTMLImageElement nat nat "nat list" | CanvasImageSource "nat list"

datatype analysisError = NoCanvasContext

text \<open>
  \<^verbatim>\<open>canvas.width = imageElement.naturalWidth || 256\<close>, likewise the height; 512 by 512
  for any other source.
\<close>

fun canvasWidth :: "imageSource \<Rightarrow> nat" where
  "canvasWidth (HTMLImageElement naturalWidth naturalHeight data) =
     (if naturalWidth = 0 then 256 else naturalWidth)"
| "canvasWidth (CanvasImageSource data) = 512"

fun canvasHeight :: "imageSource \<Rightarrow> nat" where
  "canvasHeight (HTMLImageElement naturalWidth naturalHeight data) =
     (if naturalHeight = 0 then 256 else naturalHeight)"
| "canvasHeight (CanvasImageSource data) = 512"

text \<open>
  \<^verbatim>\<open>getImageData\<close> after \<^verbatim>\<open>drawImage\<close>. A fresh canvas is transparent black, all
  bytes 0. An image element is drawn at its natural size at the origin; when its natural
  width or height is 0 nothing is drawn and the canvas stays as it was.
\<close>

fun imageData :: "imageSource \<Rightarrow> nat list" where
  "imageData (HTMLImageElement naturalWidth naturalHeight data) =
     (if naturalWidth = 0 \<or> naturalHeight = 0
      then replicate (4 * (canvasWidth (HTMLImageElement naturalWidth naturalHeight data) *
                           canvasHeight (HTMLImageElement naturalWidth naturalHeight data))) 0
      else data)"
| "imageData (CanvasImageSource data) = data"

definition analyzeImageForDeepfake :: "bool \<Rightarrow> imageSource \<Rightarrow> analysisError + DeepfakeAnalysisResult" where
  "analyzeImageForDeepfake haveContext imageElement =
     (if \<not> haveContext then Inl NoCanvasContext
      else Inr (analyzePixelData (imageData imageElement) (canvasWidth imageElement)
                  (canvasHeight imageElement)))"

section \<open>Auxiliary definitions\<close>

text \<open>
  The number of binary digits of an integer, division rounded to the nearest integer
  (ties to even), and the dyadic rational \<open>m \<cdot> 2\<^sup>e\<close> as a number. They serve to compute
  \<open>rnd\<close> on concrete values by integer arithmetic.
\<close>

definition blen :: "int \<Rightarrow> int" where
  "blen m = int (floorlog 2 (nat \<bar>m\<bar>))"

definition rnear :: "int \<Rightarrow> int \<Rightarrow> int \<Rightarrow> int" where
  "rnear f r d = (if 2 * r < d then f else if d < 2 * r then f + 1 else if even f then f else f + 1)"

definition rdiv :: "int \<Rightarrow> int \<Rightarrow> int" where
  "rdiv n d = rnear (n div d) (n mod d) d"

definition fl :: "int \<Rightarrow> int \<Rightarrow> number" where
  "fl m e = Num (of_int m * pow2 e)"

definition shift :: "int \<Rightarrow> int \<Rightarrow> int" where
  "shift m e = max (blen m - 53) (- 1074 - e)"

definition normfl :: "int \<Rightarrow> int \<Rightarrow> int \<Rightarrow> number" where
  "normfl m e k = (if k \<le> 0 then fl m e else fl (rdiv m (2 ^ nat k)) (e + k))"

definition rndb :: "int \<Rightarrow> int \<Rightarrow> int \<Rightarrow> number" where
  "rndb m e b = (if b + e \<le> 1023 then normfl m e (max (b - 53) (- 1074 - e))
     else rnd (of_int m * pow2 e))"

definition rndfl :: "int \<Rightarrow> int \<Rightarrow> number" where
  "rndfl m e = rnd (of_int m * pow2 e)"

text \<open>
  The rounded quotient of two integers scaled by a power of two, with the exponent of
  the quotient found from the digit counts.
\<close>

definition rq_ex :: "int \<Rightarrow> int \<Rightarrow> int \<Rightarrow> int" where
  "rq_ex a b d =
     (if (if 0 \<le> d then b * 2 ^ nat d \<le> \<bar>a\<bar> else b \<le> \<bar>a\<bar> * 2 ^ nat (- d)) then d else d - 1)"

definition rq_t :: "int \<Rightarrow> int \<Rightarrow> int \<Rightarrow> int \<Rightarrow> number" where
  "rq_t a b t E =
     fl (if 0 \<le> t then rdiv (a * 2 ^ nat t) b else rdiv a (b * 2 ^ nat (- t))) (E - 52)"

definition rnddiv :: "int \<Rightarrow> int \<Rightarrow> int \<Rightarrow> number" where
  "rnddiv a b e = rnd (of_int a / of_int b * pow2 e)"

text \<open>Ranges of numbers: non-negative (possibly \<open>+\<infinity>\<close>), and finite within bounds.\<close>

definition nonneg :: "number \<Rightarrow> bool" where
  "nonneg x = (case x of Num q \<Rightarrow> 0 \<le> q | PInf \<Rightarrow> True | NInf \<Rightarrow> False | NaN \<Rightarrow> False)"

definition inRange :: "rat \<Rightarrow> rat \<Rightarrow> number \<Rightarrow> bool" where
  "inRange lo hi x =
     (case x of Num q \<Rightarrow> lo \<le> q \<and> q \<le> hi | PInf \<Rightarrow> False | NInf \<Rightarrow> False | NaN \<Rightarrow> False)"

text \<open>The tiles visited by the frequency loop and by the texture loop, in order.\<close>

definition frequencyBlocks :: "nat \<Rightarrow> nat \<Rightarrow> (nat \<times> nat) list" where
  "frequencyBlocks width height =
     concat (map (\<lambda>by. map (Pair by) (forRange 0 (int width - 8) 8)) (forRange 0 (int height - 8) 8))"

definition textureRegions :: "nat \<Rightarrow> nat \<Rightarrow> (nat \<times> nat) list" where
  "textureRegions width height =
     concat (map (\<lambda>ry. map (Pair ry) (forRange 0 (int width - 64) 64)) (forRange 0 (int height - 64) 64))"

text \<open>
  Repeated addition of one value, as the accumulating loops do on a constant array.
\<close>

fun iter_add :: "nat \<Rightarrow> number \<Rightarrow> number \<Rightarrow> number" where
  "iter_add 0 v a = a"
| "iter_add (Suc n) v a = iter_add n v (fadd a v)"

text \<open>
  Test images: the RGBA buffer of \<open>n\<close> pixels whose colour at position \<open>i\<close> is
  \<open>f i\<close>, with alpha 255, and the luma, grayscale and channel value of one colour as
  the analyzers compute them.
\<close>

definition pixelsOf :: "(nat \<Rightarrow> nat \<times> nat \<times> nat) \<Rightarrow> nat \<Rightarrow> nat list" where
  "pixelsOf f n = concat (map (\<lambda>i. case f i of (r, g, b) \<Rightarrow> [r, g, b, 255]) [0 ..< n])"

definition lumaRGB :: "nat \<times> nat \<times> nat \<Rightarrow> number" where
  "lumaRGB c = (case c of (r, g, b) \<Rightarrow>
     fadd (fadd (fmul (rnd (299 / 1000)) (fdiv (Num (of_nat r)) (Num 255)))
                (fmul (rnd (587 / 1000)) (fdiv (Num (of_nat g)) (Num 255))))
          (fmul (rnd (114 / 1000)) (fdiv (Num (of_nat b)) (Num 255))))"

definition grayRGB :: "nat \<times> nat \<times> nat \<Rightarrow> number" where
  "grayRGB c = (case c of (r, g, b) \<Rightarrow>
     fdiv (fadd (fadd (fmul (rnd (299 / 1000)) (Num (of_nat r)))
                      (fmul (rnd (587 / 1000)) (Num (of_nat g))))
                (fmul (rnd (114 / 1000)) (Num (of_nat b)))) (Num 255))"

definition channel :: "nat \<Rightarrow> nat \<times> nat \<times> nat \<Rightarrow> nat" where
  "channel c p = (case p of (r, g, b) \<Rightarrow> if c = 0 then r else if c = 1 then g else b)"

definition uniformImage :: "nat \<times> nat \<times> nat \<Rightarrow> nat \<Rightarrow> nat list" where
  "uniformImage c n = pixelsOf (\<lambda>i. c) n"

text \<open>
  A black and white test image given by one bit per pixel, the luma of a white or black
  pixel, a 9 by 9 image of noise, and the bits of its top left 8 by 8 block.
\<close>

definition bwImage :: "bool list \<Rightarrow> nat list" where
  "bwImage bits = pixelsOf (\<lambda>i. if bits ! i then (255, 255, 255) else (0, 0, 0)) (length bits)"

definition tone :: "bool \<Rightarrow> number" where
  "tone b = lumaRGB (if b then (255, 255, 255) else (0, 0, 0))"

definition noiseBits :: "bool list" where
  "noiseBits =
    [False, False, False, True, False, True, False, True, False, True, False, True,
     False, True, False, False, False, True, False, True, True, True, False, True,
     True, True, True, True, True, False, True, True, False, False, True, True,
     False, False, True, True, False, False, False, True, False, True, False, True,
     True, False, False, False, True, True, False, True, False, False, False, False,
     False, False, True, False, False, False, True, True, False, True, False, True,
     False, True, False, True, False, False, False, True, False]"

definition noiseBlock :: "bool list" where
  "noiseBlock =
    [False, False, False, True, False, True, False, True, True, False, True, False, True,
     False, False, False, False, True, True, True, False, True, True, True, True, True,
     False, True, True, False, False, True, False, False, True, True, False, False, False,
     True, True, False, True, True, False, False, False, True, False, True, False, False,
     False, False, False, False, False, False, False, True, True, False, True, False]"

text \<open>
  A black image of 64 by 64 pixels with a white pixel at every block corner from row 16
  on, the bits of its blocks and of the four-pixel windows of the compression analyzer,
  the block with one white pixel, the grayscale of a white or black pixel, the block
  boundaries that \<^verbatim>\<open>detectCompressionArtifacts\<close> visits, and its test on two windows
  of black and white pixels.
\<close>

definition grayTone :: "bool \<Rightarrow> number" where
  "grayTone b = grayRGB (if b then (255, 255, 255) else (0, 0, 0))"

definition gridWhite :: "nat \<Rightarrow> bool" where
  "gridWhite i = (16 \<le> i div 64 \<and> (i div 64) mod 8 = 0 \<and> 8 \<le> i mod 64 \<and> (i mod 64) mod 8 = 0)"

definition gridImage :: "nat list" where
  "gridImage = pixelsOf (\<lambda>i. if gridWhite i then (255, 255, 255) else (0, 0, 0)) 4096"

definition gridBlock :: "nat \<Rightarrow> nat \<Rightarrow> bool list" where
  "gridBlock by bx =
     concat (map (\<lambda>y. map (\<lambda>x. gridWhite ((by + y) * 64 + (bx + x))) [0 ..< 8]) [0 ..< 8])"

definition gridWindow :: "nat \<Rightarrow> nat \<Rightarrow> bool list" where
  "gridWindow by bx = map (\<lambda>i. gridWhite (by * 64 + (bx + i))) [0 ..< 4]"

definition spikeBlock :: "bool list" where
  "spikeBlock = True # replicate 63 False"

definition artifactBoundaries :: "nat \<Rightarrow> nat \<Rightarrow> (nat \<times> nat) list" where
  "artifactBoundaries width height =
     concat (map (\<lambda>by. map (Pair by) (forRange 8 (int width) 8)) (forRange 8 (int height) 8))"

definition windowFires :: "bool list \<Rightarrow> bool list \<Rightarrow> bool" where
  "windowFires boundary inside =
     fgt (fabs (fsub (calculateVariance (map grayTone boundary))
                     (calculateVariance (map grayTone inside)))) (rnd (5 / 100))"

lemma pow2_powi: "pow2 e = 2 powi e"
  by (simp add: pow2_def power_int_def field_simps)

lemma pow2_pos [simp]: "0 < pow2 e"
  by (simp add: pow2_powi)

lemma pow2_nonneg [simp]: "0 \<le> pow2 e"
  by (simp add: pow2_powi)

lemma pow2_neq0 [simp]: "pow2 e \<noteq> 0"
  by (simp add: pow2_powi)

lemma pow2_add: "pow2 (a + b) = pow2 a * pow2 b"
  by (simp add: pow2_powi power_int_add)

lemma pow2_diff: "pow2 (a - b) = pow2 a / pow2 b"
  by (simp add: pow2_powi power_int_diff)

lemma pow2_strict_mono: "a < b \<Longrightarrow> pow2 a < pow2 b"
  unfolding pow2_powi by (rule power_int_strict_increasing) simp_all

lemma pow2_mono: "a \<le> b \<Longrightarrow> pow2 a \<le> pow2 b"
  unfolding pow2_powi by (rule power_int_increasing) simp_all

lemma pow2_less_iff [simp]: "pow2 a < pow2 b \<longleftrightarrow> a < b"
  using pow2_strict_mono [of a b] pow2_mono [of b a] by (cases "a < b") auto

lemma pow2_le_iff [simp]: "pow2 a \<le> pow2 b \<longleftrightarrow> a \<le> b"
  using pow2_less_iff [of b a] by (auto simp: not_less [symmetric] simp del: pow2_less_iff)

lemma pow2_0 [simp]: "pow2 0 = 1"
  by (simp add: pow2_def)

lemma pow2_nat: "pow2 (int n) = 2 ^ n"
  by (simp add: pow2_def)

lemma pow2_1 [simp]: "pow2 1 = 2"
  by (simp add: pow2_def)

lemma pow2_neg_nat: "pow2 (- int k) = 1 / 2 ^ k"
  by (simp add: pow2_powi power_int_minus_divide)

lemma pow2_Suc: "pow2 (e + 1) = 2 * pow2 e"
  by (simp add: pow2_add)

lemma round_even_of_int [simp]: "round_even (of_int n) = n"
  by (simp add: round_even_def)

lemma round_even_cases: "round_even r = \<lfloor>r\<rfloor> \<or> round_even r = \<lfloor>r\<rfloor> + 1"
  by (simp add: round_even_def Let_def)

lemma round_even_close: "\<bar>of_int (round_even r) - r\<bar> \<le> 1 / 2"
proof -
  define d where "d = r - of_int \<lfloor>r\<rfloor>"
  have d: "0 \<le> d" "d < 1" unfolding d_def by linarith+
  have r: "r = of_int \<lfloor>r\<rfloor> + d" by (simp add: d_def)
  have "round_even r = (if d < 1 / 2 then \<lfloor>r\<rfloor> else if 1 / 2 < d then \<lfloor>r\<rfloor> + 1
      else if even \<lfloor>r\<rfloor> then \<lfloor>r\<rfloor> else \<lfloor>r\<rfloor> + 1)"
    by (simp add: round_even_def Let_def d_def)
  then show ?thesis
    using d by (subst (2) r) (auto simp: abs_if)
qed

lemma round_even_unique:
  assumes "\<bar>r - of_int m\<bar> < 1 / 2"
  shows "round_even r = m"
proof (cases "of_int m \<le> r")
  case True
  with assms have "\<lfloor>r\<rfloor> = m" by (intro floor_unique) (auto simp: abs_if split: if_splits)
  with assms True show ?thesis by (auto simp: round_even_def Let_def abs_if split: if_splits)
next
  case False
  with assms have "\<lfloor>r\<rfloor> = m - 1" by (intro floor_unique) (auto simp: abs_if split: if_splits)
  with assms False show ?thesis by (auto simp: round_even_def Let_def abs_if split: if_splits)
qed

lemma round_even_mono:
  assumes "a \<le> b"
  shows "round_even a \<le> round_even b"
proof (cases "\<lfloor>a\<rfloor> = \<lfloor>b\<rfloor>")
  case True
  with assms show ?thesis by (auto simp: round_even_def Let_def)
next
  case False
  with assms have "\<lfloor>a\<rfloor> < \<lfloor>b\<rfloor>" using floor_mono [of a b] by linarith
  moreover have "round_even a \<le> \<lfloor>a\<rfloor> + 1" using round_even_cases [of a] by auto
  moreover have "\<lfloor>b\<rfloor> \<le> round_even b" using round_even_cases [of b] by auto
  ultimately show ?thesis by linarith
qed

lemma round_even_0 [simp]: "round_even 0 = 0"
  using round_even_of_int [of 0] by simp

lemma round_even_nonneg: "0 \<le> r \<Longrightarrow> 0 \<le> round_even r"
  using round_even_mono [of 0 r] by simp

lemma round_even_le_int: "r \<le> of_int n \<Longrightarrow> round_even r \<le> n"
  using round_even_mono [of r "of_int n"] by simp

lemma round_even_ge_int: "of_int n \<le> r \<Longrightarrow> n \<le> round_even r"
  using round_even_mono [of "of_int n" r] by simp

lemma floorlog_rat_bounds:
  assumes "0 < n"
  shows "(2::rat) ^ (floorlog 2 n - 1) \<le> of_nat n" "of_nat n + 1 \<le> (2::rat) ^ floorlog 2 n"
proof -
  from floorlog_bounds [of n 2] assms
  have b: "2 ^ (floorlog 2 n - 1) \<le> n" "n + 1 \<le> 2 ^ floorlog 2 n"
    by auto
  have "(of_nat (2 ^ (floorlog 2 n - 1)) :: rat) \<le> of_nat n"
    using b(1) by (simp only: of_nat_le_iff)
  then show "(2::rat) ^ (floorlog 2 n - 1) \<le> of_nat n" by simp
  have "(of_nat (n + 1) :: rat) \<le> of_nat (2 ^ floorlog 2 n)"
    using b(2) by (simp only: of_nat_le_iff)
  then show "of_nat n + 1 \<le> (2::rat) ^ floorlog 2 n" by simp
qed

lemma expo_bounds:
  assumes "0 < q"
  shows "pow2 (expo q) \<le> q \<and> q < pow2 (expo q + 1)"
proof (cases "1 \<le> q")
  case True
  define n where "n = nat \<lfloor>q\<rfloor>"
  have "1 \<le> \<lfloor>q\<rfloor>" using True by linarith
  then have n0: "0 < n" and nq: "of_nat n = (of_int \<lfloor>q\<rfloor> :: rat)"
    by (simp_all add: n_def)
  have n: "of_nat n \<le> q" "q < of_nat n + 1"
    unfolding nq by linarith+
  have e: "expo q = int (floorlog 2 n) - 1"
    using True by (simp add: expo_def n_def)
  have fl: "0 < floorlog 2 n" using n0 by (simp add: floorlog_def)
  have "pow2 (expo q) = 2 ^ (floorlog 2 n - 1)"
    using fl by (simp add: e pow2_def nat_diff_distrib')
  then have 1: "pow2 (expo q) \<le> q"
    using floorlog_rat_bounds(1) [OF n0] n by linarith
  have "pow2 (expo q + 1) = 2 ^ floorlog 2 n"
    by (simp add: e pow2_def)
  then have "q < pow2 (expo q + 1)"
    using floorlog_rat_bounds(2) [OF n0] n by linarith
  with 1 show ?thesis by simp
next
  case False
  define n where "n = nat (\<lceil>1 / q\<rceil> - 1)"
  have q1: "1 < 1 / q" using False assms by simp
  then have c: "2 \<le> \<lceil>1 / q\<rceil>" by linarith
  then have z: "0 \<le> \<lceil>1 / q\<rceil> - 1" "0 < \<lceil>1 / q\<rceil> - 1" by linarith+
  have n0: "0 < n" using z(2) unfolding n_def by (simp only: zero_less_nat_eq)
  have nq: "of_nat n = (of_int \<lceil>1 / q\<rceil> :: rat) - 1"
    unfolding n_def of_nat_nat [OF z(1)] by simp
  have n: "of_nat n < 1 / q" "1 / q \<le> of_nat n + 1"
    unfolding nq by linarith+
  have e: "expo q = - int (floorlog 2 n)"
    using False by (simp add: expo_def n_def)
  have fl: "0 < floorlog 2 n" using n0 by (simp add: floorlog_def)
  have "1 / q \<le> 2 ^ floorlog 2 n"
    using floorlog_rat_bounds(2) [OF n0] n by linarith
  then have "1 / 2 ^ floorlog 2 n \<le> q" using assms by (simp add: field_simps)
  moreover have "pow2 (expo q) = 1 / 2 ^ floorlog 2 n"
    using fl by (simp add: e pow2_def)
  ultimately have 1: "pow2 (expo q) \<le> q"
    by simp
  have "2 ^ (floorlog 2 n - 1) < 1 / q"
    using floorlog_rat_bounds(1) [OF n0] n by linarith
  then have "q < 1 / 2 ^ (floorlog 2 n - 1)" using assms by (simp add: field_simps)
  moreover have "pow2 (expo q + 1) = 1 / 2 ^ (floorlog 2 n - 1)"
  proof -
    have "expo q + 1 = - int (floorlog 2 n - 1)" using fl by (simp add: e)
    then show ?thesis by (simp only: pow2_neg_nat)
  qed
  ultimately have "q < pow2 (expo q + 1)" by simp
  with 1 show ?thesis by simp
qed

lemma expo_unique:
  assumes "0 < q" "pow2 e \<le> q" "q < pow2 (e + 1)"
  shows "expo q = e"
proof -
  from expo_bounds [OF assms(1)] have b: "pow2 (expo q) \<le> q" "q < pow2 (expo q + 1)" by auto
  have "pow2 e < pow2 (expo q + 1)" using assms(2) b(2) by linarith
  moreover have "pow2 (expo q) < pow2 (e + 1)" using assms(3) b(1) by linarith
  ultimately show ?thesis by simp
qed


lemma round_even_frac:
  assumes "0 < d"
  shows "round_even (of_int n / of_int d) = rdiv n d"
proof -
  have f: "\<lfloor>(of_int n / of_int d :: rat)\<rfloor> = n div d"
    by (rule floor_divide_of_int_eq)
  have "(of_int n :: rat) = of_int (n div d * d + n mod d)" by simp
  also have "\<dots> = of_int (n div d) * of_int d + of_int (n mod d)"
    by (simp only: of_int_add of_int_mult)
  finally have "(of_int n / of_int d :: rat) - of_int (n div d) = of_int (n mod d) / of_int d"
    using assms by (simp add: field_simps)
  moreover have "(of_int (n mod d) / of_int d :: rat) < 1 / 2 \<longleftrightarrow> 2 * (n mod d) < d"
  proof -
    have "(of_int (n mod d) / of_int d :: rat) < 1 / 2 \<longleftrightarrow> (of_int (2 * (n mod d)) :: rat) < of_int d"
      using assms by (simp add: field_simps)
    then show ?thesis by (simp only: of_int_less_iff)
  qed
  moreover have "1 / 2 < (of_int (n mod d) / of_int d :: rat) \<longleftrightarrow> d < 2 * (n mod d)"
  proof -
    have "1 / 2 < (of_int (n mod d) / of_int d :: rat) \<longleftrightarrow> (of_int d :: rat) < of_int (2 * (n mod d))"
      using assms by (simp add: field_simps)
    then show ?thesis by (simp only: of_int_less_iff)
  qed
  ultimately show ?thesis
    unfolding round_even_def rdiv_def rnear_def Let_def f by simp
qed

lemma blen_bounds:
  assumes "m \<noteq> 0"
  shows "pow2 (blen m - 1) \<le> \<bar>of_int m\<bar>" "\<bar>of_int m :: rat\<bar> < pow2 (blen m)"
proof -
  define n where "n = nat \<bar>m\<bar>"
  have n0: "0 < n" using assms by (simp add: n_def)
  have nm: "(of_nat n :: rat) = \<bar>of_int m\<bar>" by (simp add: n_def)
  have fl: "0 < floorlog 2 n" using n0 by (simp add: floorlog_def)
  have "blen m - 1 = int (floorlog 2 n - 1)" using fl by (simp add: blen_def n_def)
  then have "pow2 (blen m - 1) = 2 ^ (floorlog 2 n - 1)" by (simp only: pow2_nat)
  then show "pow2 (blen m - 1) \<le> \<bar>of_int m\<bar>"
    using floorlog_rat_bounds(1) [OF n0] nm by simp
  have "pow2 (blen m) = 2 ^ floorlog 2 n" by (simp add: blen_def n_def pow2_nat)
  then show "\<bar>of_int m :: rat\<bar> < pow2 (blen m)"
    using floorlog_rat_bounds(2) [OF n0] nm by simp
qed

lemma expo_dyadic:
  assumes "m \<noteq> 0"
  shows "expo \<bar>of_int m * pow2 e\<bar> = blen m - 1 + e"
proof (rule expo_unique)
  show "0 < \<bar>of_int m * pow2 e\<bar>" using assms by simp
  have "pow2 (blen m - 1 + e) = pow2 (blen m - 1) * pow2 e" by (rule pow2_add)
  also have "\<dots> \<le> \<bar>of_int m\<bar> * pow2 e"
    using blen_bounds(1) [OF assms] by (intro mult_right_mono) simp_all
  finally show "pow2 (blen m - 1 + e) \<le> \<bar>of_int m * pow2 e\<bar>" by (simp add: abs_mult)
  have "\<bar>of_int m :: rat\<bar> * pow2 e < pow2 (blen m) * pow2 e"
    using blen_bounds(2) [OF assms] by (intro mult_strict_right_mono) simp_all
  also have "\<dots> = pow2 (blen m - 1 + e + 1)" by (simp add: pow2_add [symmetric])
  finally show "\<bar>of_int m * pow2 e\<bar> < pow2 (blen m - 1 + e + 1)" by (simp add: abs_mult)
qed

lemma quantize_dyadic:
  assumes "m \<noteq> 0"
  shows "quantize (of_int m * pow2 e) =
    (if shift m e \<le> 0 then of_int m * pow2 e
     else of_int (rdiv m (2 ^ nat (shift m e))) * pow2 (e + shift m e))"
proof -
  define k where "k = shift m e"
  define q :: rat where "q = of_int m * pow2 e"
  have q0: "q \<noteq> 0" using assms by (simp add: q_def)
  have E: "max (expo \<bar>q\<bar>) (- 1022) - 52 = e + k"
    unfolding q_def expo_dyadic [OF assms] k_def shift_def by linarith
  have qu: "q / pow2 (e + k) = of_int m / pow2 k"
    by (simp add: q_def pow2_add)
  have Q: "quantize q = of_int (round_even (of_int m / pow2 k)) * pow2 (e + k)"
    using q0 by (simp add: quantize_def E qu Let_def)
  show ?thesis
  proof (cases "k \<le> 0")
    case True
    then have "pow2 k = 1 / 2 ^ nat (- k)" using pow2_neg_nat [of "nat (- k)"] by simp
    then have "of_int m / pow2 k = of_int (m * 2 ^ nat (- k))" by simp
    then have "round_even (of_int m / pow2 k) = m * 2 ^ nat (- k)"
      by (simp only: round_even_of_int)
    then have "quantize q = of_int m * (2 ^ nat (- k) * pow2 (e + k))"
      using Q by simp
    also have "2 ^ nat (- k) * pow2 (e + k) = pow2 (- k) * pow2 (e + k)"
      using True pow2_nat [of "nat (- k)"] by simp
    also have "\<dots> = pow2 e" by (simp add: pow2_add [symmetric])
    finally show ?thesis using True by (simp add: q_def k_def)
  next
    case False
    then have "pow2 k = of_int (2 ^ nat k)" using pow2_nat [of "nat k"] by simp
    then have "round_even (of_int m / pow2 k) = rdiv m (2 ^ nat k)"
      using round_even_frac [of "2 ^ nat k" m] by simp
    then show ?thesis using False Q by (simp add: q_def k_def)
  qed
qed


lemma quantize_close:
  assumes "q \<noteq> 0"
  shows "\<bar>quantize q - q\<bar> \<le> pow2 (max (expo \<bar>q\<bar>) (- 1022) - 52) / 2"
proof -
  define u where "u = pow2 (max (expo \<bar>q\<bar>) (- 1022) - 52)"
  have u: "0 < u" by (simp add: u_def)
  have "quantize q - q = (of_int (round_even (q / u)) - q / u) * u"
    using assms u by (simp add: quantize_def Let_def u_def [symmetric] field_simps)
  then have "\<bar>quantize q - q\<bar> = \<bar>of_int (round_even (q / u)) - q / u\<bar> * u"
    using u by (simp add: abs_mult)
  also have "\<dots> \<le> 1 / 2 * u"
    using round_even_close [of "q / u"] u by (intro mult_right_mono) simp_all
  finally show ?thesis by (simp add: u_def)
qed

lemma rndfl_eval:
  "rndfl m e = (if m = 0 then fl 0 0 else rndb m e (blen m))"
proof (cases "m = 0")
  case True
  then show ?thesis by (simp add: rndfl_def rnd_def quantize_def fl_def not_le)
next
  case False
  show ?thesis
  proof (cases "blen m + e \<le> 1023")
    case b: True
    define q :: rat where "q = of_int m * pow2 e"
    have q0: "q \<noteq> 0" using False by (simp add: q_def)
    have ex: "expo \<bar>q\<bar> = blen m - 1 + e" unfolding q_def by (rule expo_dyadic [OF False])
    have "\<bar>q\<bar> = \<bar>of_int m\<bar> * pow2 e" by (simp add: q_def abs_mult)
    also have "\<dots> < pow2 (blen m) * pow2 e"
      using blen_bounds(2) [OF False] by (intro mult_strict_right_mono) simp_all
    also have "\<dots> = pow2 (blen m + e)" by (simp add: pow2_add)
    also have "\<dots> \<le> pow2 1023" using b by simp
    finally have qb: "\<bar>q\<bar> < pow2 1023" .
    have "max (expo \<bar>q\<bar>) (- 1022) - 52 \<le> 1024" using b ex by linarith
    then have "pow2 (max (expo \<bar>q\<bar>) (- 1022) - 52) \<le> pow2 1024" by simp
    also have "pow2 1024 = 2 * pow2 1023" using pow2_Suc [of 1023] by simp
    finally have "pow2 (max (expo \<bar>q\<bar>) (- 1022) - 52) / 2 \<le> pow2 1023"
      by simp
    with quantize_close [OF q0] have "\<bar>quantize q - q\<bar> \<le> pow2 1023" by linarith
    with qb have "\<bar>quantize q\<bar> < 2 * pow2 1023" by linarith
    then have "\<bar>quantize q\<bar> < pow2 1024" using pow2_Suc [of 1023] by simp
    then have "rnd q = Num (quantize q)"
      by (auto simp: rnd_def Let_def abs_if split: if_splits)
    then show ?thesis
      using False b quantize_dyadic [OF False, of e]
      by (simp add: rndfl_def rndb_def normfl_def q_def shift_def fl_def)
  next
    case False
    then show ?thesis using \<open>m \<noteq> 0\<close> by (simp add: rndfl_def rndb_def)
  qed
qed

lemma blen_simps:
  "blen 0 = 0" "blen 1 = 1" "blen (numeral num.One) = 1"
  "blen (numeral (num.Bit0 n)) = blen (numeral n) + 1"
  "blen (numeral (num.Bit1 n)) = blen (numeral n) + 1"
  "blen (- m) = blen m"
proof -
  show "blen 0 = 0" "blen 1 = 1" "blen (numeral num.One) = 1" "blen (- m) = blen m"
    by (simp_all add: blen_def compute_floorlog)
  have "floorlog 2 (numeral (num.Bit0 n)) = floorlog 2 (numeral n) + 1"
    by (subst compute_floorlog) (simp add: numeral_Bit0_div_2)
  then show "blen (numeral (num.Bit0 n)) = blen (numeral n) + 1"
    by (simp add: blen_def)
  have "floorlog 2 (numeral (num.Bit1 n)) = floorlog 2 (numeral n) + 1"
    by (subst compute_floorlog) (simp add: numeral_Bit1_div_2)
  then show "blen (numeral (num.Bit1 n)) = blen (numeral n) + 1"
    by (simp add: blen_def)
qed

lemma fadd_fl:
  "fadd (fl m1 e1) (fl m2 e2) =
     rndfl (m1 * 2 ^ nat (e1 - min e1 e2) + m2 * 2 ^ nat (e2 - min e1 e2)) (min e1 e2)"
proof -
  have *: "pow2 a = 2 ^ nat (a - b) * pow2 b" if "b \<le> a" for a b
    using that pow2_add [of "a - b" b] pow2_nat [of "nat (a - b)"] by simp
  have "of_int m1 * pow2 e1 + of_int m2 * pow2 e2 =
      of_int (m1 * 2 ^ nat (e1 - min e1 e2) + m2 * 2 ^ nat (e2 - min e1 e2)) * pow2 (min e1 e2)"
    using * [of "min e1 e2" e1] * [of "min e1 e2" e2] by (simp add: algebra_simps)
  then show ?thesis by (simp add: fl_def rndfl_def)
qed


lemma round_even_uminus: "round_even (- r) = - round_even r"
proof (cases "r = of_int \<lfloor>r\<rfloor>")
  case True
  then obtain n where r: "r = of_int n" ..
  have "round_even (- of_int n) = round_even (of_int (- n))" by simp
  then show ?thesis unfolding r by (simp only: round_even_of_int)
next
  case False
  define f where "f = \<lfloor>r\<rfloor>"
  define d where "d = r - of_int f"
  have d: "0 < d" "d < 1" using False unfolding d_def f_def by linarith+
  have fm: "\<lfloor>- r\<rfloor> = - f - 1"
    using d by (intro floor_unique) (simp_all add: d_def)
  have dm: "- r - of_int (- f - 1) = 1 - d" by (simp add: d_def)
  have 1: "round_even r = (if d < 1 / 2 then f else if 1 / 2 < d then f + 1
      else if even f then f else f + 1)"
    by (simp add: round_even_def Let_def d_def f_def)
  have 2: "round_even (- r) = (if 1 - d < 1 / 2 then - f - 1 else if 1 / 2 < 1 - d then - f
      else if even (- f - 1) then - f - 1 else - f)"
    unfolding round_even_def Let_def fm dm by simp
  show ?thesis unfolding 1 2 using d by auto
qed

lemma quantize_uminus: "quantize (- q) = - quantize q"
  by (simp add: quantize_def Let_def round_even_uminus)

lemma quantize_nonneg: "0 \<le> q \<Longrightarrow> 0 \<le> quantize q"
  by (simp add: quantize_def Let_def round_even_nonneg)

lemma quantize_upper:
  assumes "0 < q" and E: "E = max (expo q) (- 1022)"
  shows "quantize q \<le> pow2 (E + 1)"
proof -
  define u where "u = pow2 (E - 52)"
  have u: "0 < u" by (simp add: u_def)
  have "q < pow2 (expo q + 1)" using expo_bounds [OF assms(1)] by simp
  also have "\<dots> \<le> pow2 (E + 1)" using E by simp
  finally have "q / u < pow2 (E + 1) / u" using u by (simp add: divide_strict_right_mono)
  also have "pow2 (E + 1) / u = pow2 53" by (simp add: u_def pow2_diff [symmetric])
  also have "pow2 53 = of_int (2 ^ 53)" using pow2_nat [of 53] by simp
  finally have "round_even (q / u) \<le> 2 ^ 53" by (intro round_even_le_int) simp
  then have "(of_int (round_even (q / u)) :: rat) \<le> of_int (2 ^ 53)" by (simp only: of_int_le_iff)
  then have "of_int (round_even (q / u)) * u \<le> of_int (2 ^ 53) * u"
    using u by (intro mult_right_mono) simp_all
  also have "of_int (2 ^ 53) * u = pow2 53 * pow2 (E - 52)" using pow2_nat [of 53] by (simp add: u_def)
  also have "\<dots> = pow2 (53 + (E - 52))" by (simp only: pow2_add)
  also have "53 + (E - 52) = E + 1" by simp
  finally have "of_int (round_even (q / u)) * u \<le> pow2 (E + 1)" .
  moreover have "quantize q = of_int (round_even (q / u)) * u"
    using assms by (simp add: quantize_def Let_def u_def abs_if)
  ultimately show ?thesis by linarith
qed

lemma quantize_lower:
  assumes "0 < q" "- 1022 \<le> expo q"
  shows "pow2 (expo q) \<le> quantize q"
proof -
  define u where "u = pow2 (expo q - 52)"
  have u: "0 < u" by (simp add: u_def)
  have "pow2 (expo q) \<le> q" using expo_bounds [OF assms(1)] by simp
  then have "pow2 (expo q) / u \<le> q / u" using u by (simp add: divide_right_mono)
  moreover have "pow2 (expo q) / u = pow2 52" by (simp add: u_def pow2_diff [symmetric])
  moreover have "pow2 52 = of_int (2 ^ 52)" using pow2_nat [of 52] by simp
  ultimately have "2 ^ 52 \<le> round_even (q / u)" by (intro round_even_ge_int) simp
  then have "(of_int (2 ^ 52) :: rat) \<le> of_int (round_even (q / u))" by (simp only: of_int_le_iff)
  then have b: "of_int (2 ^ 52) * u \<le> of_int (round_even (q / u)) * u"
    using u by (intro mult_right_mono) simp_all
  have "of_int (2 ^ 52) * u = pow2 52 * pow2 (expo q - 52)"
    using pow2_nat [of 52] by (simp add: u_def)
  also have "\<dots> = pow2 (52 + (expo q - 52))" by (simp only: pow2_add)
  also have "52 + (expo q - 52) = expo q" by simp
  finally have a: "of_int (2 ^ 52) * u = pow2 (expo q)" .
  have m: "max (expo q) (- 1022) = expo q" using assms by simp
  have c: "quantize q = of_int (round_even (q / u)) * u"
    using assms(1) by (simp add: quantize_def Let_def u_def abs_if m)
  from a b c show ?thesis by linarith
qed

lemma expo_mono:
  assumes "0 < p" "p \<le> q"
  shows "expo p \<le> expo q"
proof -
  have "pow2 (expo p) \<le> p" using expo_bounds [OF assms(1)] by simp
  also have "p \<le> q" by fact
  also have "q < pow2 (expo q + 1)" using expo_bounds [of q] assms by simp
  finally show ?thesis by simp
qed

lemma quantize_mono_pos:
  assumes "0 < p" "p \<le> q"
  shows "quantize p \<le> quantize q"
proof -
  have q: "0 < q" using assms by simp
  define Ep where "Ep = max (expo p) (- 1022)"
  define Eq where "Eq = max (expo q) (- 1022)"
  have le: "Ep \<le> Eq" using expo_mono [OF assms] by (simp add: Ep_def Eq_def)
  show ?thesis
  proof (cases "Ep = Eq")
    case True
    have "p / pow2 (Eq - 52) \<le> q / pow2 (Eq - 52)"
      using assms by (simp add: divide_right_mono)
    then have "round_even (p / pow2 (Eq - 52)) \<le> round_even (q / pow2 (Eq - 52))"
      by (rule round_even_mono)
    then have "(of_int (round_even (p / pow2 (Eq - 52))) :: rat) \<le> of_int (round_even (q / pow2 (Eq - 52)))"
      by (simp only: of_int_le_iff)
    then have "of_int (round_even (p / pow2 (Eq - 52))) * pow2 (Eq - 52)
        \<le> of_int (round_even (q / pow2 (Eq - 52))) * pow2 (Eq - 52)"
      by (intro mult_right_mono) simp_all
    then show ?thesis
      using assms q True by (simp add: quantize_def Let_def Ep_def [symmetric] Eq_def [symmetric] abs_if)
  next
    case False
    with le have lt: "Ep + 1 \<le> Eq" by simp
    then have eq: "Eq = expo q" "- 1022 \<le> expo q" unfolding Eq_def Ep_def by linarith+
    have "quantize p \<le> pow2 (Ep + 1)" using quantize_upper [OF assms(1) Ep_def] .
    also have "\<dots> \<le> pow2 Eq" using lt by simp
    also have "\<dots> \<le> quantize q" unfolding eq(1) using quantize_lower [OF q eq(2)] .
    finally show ?thesis .
  qed
qed

lemma quantize_0 [simp]: "quantize 0 = 0"
  by (simp add: quantize_def)

lemma quantize_mono:
  assumes "p \<le> q"
  shows "quantize p \<le> quantize q"
proof -
  consider "0 < p" | "p \<le> 0" "0 \<le> q" | "q < 0" using assms by linarith
  then show ?thesis
  proof cases
    case 1
    then show ?thesis using assms by (rule quantize_mono_pos)
  next
    case 2
    have "quantize p = - quantize (- p)" using quantize_uminus [of p] by simp
    moreover have "0 \<le> quantize (- p)" using 2 by (intro quantize_nonneg) simp
    moreover have "0 \<le> quantize q" using 2 by (intro quantize_nonneg)
    ultimately show ?thesis by linarith
  next
    case 3
    then have "quantize (- q) \<le> quantize (- p)" using assms by (intro quantize_mono_pos) simp_all
    then show ?thesis by (simp add: quantize_uminus)
  qed
qed

lemma quantize_fixed:
  assumes "blen m \<le> 53" "- 1074 \<le> e"
  shows "quantize (of_int m * pow2 e) = of_int m * pow2 e"
proof (cases "m = 0")
  case True
  then show ?thesis by simp
next
  case False
  have "shift m e \<le> 0" using assms by (simp add: shift_def)
  then show ?thesis using quantize_dyadic [OF False, of e] by simp
qed

lemma quantize_1 [simp]: "quantize 1 = 1"
  using quantize_fixed [of 1 0] by (simp add: blen_simps)

lemma nonneg_simps [simp]:
  "nonneg (Num q) \<longleftrightarrow> 0 \<le> q" "nonneg PInf" "\<not> nonneg NInf" "\<not> nonneg NaN"
  by (simp_all add: nonneg_def)

lemma inRange_simps [simp]:
  "inRange lo hi (Num q) \<longleftrightarrow> lo \<le> q \<and> q \<le> hi" "\<not> inRange lo hi PInf"
  "\<not> inRange lo hi NInf" "\<not> inRange lo hi NaN"
  by (simp_all add: inRange_def)

lemma rnd_nonneg: "0 \<le> q \<Longrightarrow> nonneg (rnd q)"
  using quantize_nonneg [of q] pow2_pos [of 1024]
  by (auto simp: rnd_def Let_def simp del: pow2_pos)

lemma rnd_between:
  assumes "quantize lo = lo" "quantize hi = hi" "- pow2 1024 < lo" "hi < pow2 1024" "lo \<le> q" "q \<le> hi"
  shows "inRange lo hi (rnd q)"
proof -
  have "lo \<le> quantize q" using quantize_mono [OF assms(5)] assms(1) by simp
  moreover have "quantize q \<le> hi" using quantize_mono [OF assms(6)] assms(2) by simp
  ultimately show ?thesis using assms(3,4) by (auto simp: rnd_def Let_def)
qed

lemma pow2_1024_gt: "1 < pow2 1024" "100 < pow2 1024"
proof -
  have "pow2 7 \<le> pow2 1024" by simp
  moreover have "pow2 7 = 128" using pow2_nat [of 7] by simp
  ultimately show "1 < pow2 1024" "100 < pow2 1024" by linarith+
qed

lemma rnd_unit: "0 \<le> q \<Longrightarrow> q \<le> 1 \<Longrightarrow> inRange 0 1 (rnd q)"
  using pow2_1024_gt(1) by (intro rnd_between) simp_all

lemma nonneg_cases: "nonneg x \<Longrightarrow> (\<And>q. x = Num q \<Longrightarrow> 0 \<le> q \<Longrightarrow> P) \<Longrightarrow> (x = PInf \<Longrightarrow> P) \<Longrightarrow> P"
  by (cases x) simp_all

lemma inRange_cases: "inRange lo hi x \<Longrightarrow> (\<And>q. x = Num q \<Longrightarrow> lo \<le> q \<Longrightarrow> q \<le> hi \<Longrightarrow> P) \<Longrightarrow> P"
  by (cases x) simp_all

lemma inRange_nonneg: "inRange 0 hi x \<Longrightarrow> nonneg x"
  by (cases x) simp_all

lemma nonneg_fadd: "nonneg a \<Longrightarrow> nonneg b \<Longrightarrow> nonneg (fadd a b)"
  by (cases a; cases b) (simp_all add: rnd_nonneg)

lemma nonneg_fmul_Num: "nonneg a \<Longrightarrow> 0 < c \<Longrightarrow> nonneg (fmul a (Num c))"
  by (cases a) (simp_all add: rnd_nonneg)

lemma nonneg_fmul_unit: "inRange 0 1 a \<Longrightarrow> inRange 0 1 b \<Longrightarrow> inRange 0 1 (fmul a b)"
  by (cases a; cases b) (simp_all add: rnd_unit mult_le_one)

lemma nonneg_fdiv_Num: "nonneg a \<Longrightarrow> 0 < c \<Longrightarrow> nonneg (fdiv a (Num c))"
  by (cases a) (simp_all add: rnd_nonneg)

lemma fmin_bound: "nonneg x \<Longrightarrow> 0 \<le> c \<Longrightarrow> inRange 0 c (fmin (Num c) x)"
  by (cases x) (auto simp: fmin_def)

lemma fmax_0_nonneg: "nonneg x \<Longrightarrow> nonneg (fmax (Num 0) x)"
  by (cases x) (auto simp: fmax_def)

lemma foldl_invariant:
  assumes "P a" "\<And>s x. P s \<Longrightarrow> P (f s x)"
  shows "P (foldl f a xs)"
  using assms(1) by (induction xs arbitrary: a) (simp_all add: assms(2))

lemma frequencyTotal_nonneg: "nonneg (frequencyTotal luma w h)"
  unfolding frequencyTotal_def
proof (rule foldl_invariant [where P = nonneg])
  show "nonneg (Num 0)" by simp
  show "nonneg (foldl (frequencyStep luma w x) s (forRange 0 (int w - 8) 8))" if "nonneg s" for s x
    by (rule foldl_invariant [where P = nonneg, OF that])
       (simp add: frequencyStep_def nonneg_fadd rnd_nonneg)
qed

lemma analyzeFrequencyDomain_unit: "inRange 0 1 (analyzeFrequencyDomain p w h)"
  unfolding analyzeFrequencyDomain_def
  by (intro fmin_bound nonneg_fdiv_Num frequencyTotal_nonneg) simp_all

lemma artifactTotal_nonneg: "nonneg (artifactTotal gray w h)"
  unfolding artifactTotal_def
proof (rule foldl_invariant [where P = nonneg])
  show "nonneg (Num 0)" by simp
  show "nonneg (foldl (artifactStep gray w x) s (forRange 8 (int w) 8))" if "nonneg s" for s x
    by (rule foldl_invariant [where P = nonneg, OF that])
       (simp add: artifactStep_def nonneg_fadd rnd_nonneg)
qed

lemma detectCompressionArtifacts_unit: "inRange 0 1 (detectCompressionArtifacts p w h)"
  unfolding detectCompressionArtifacts_def
  by (intro fmin_bound artifactTotal_nonneg) simp_all

lemma textureScan_nonneg: "nonneg (fst (textureScan gray w h))"
  unfolding textureScan_def
proof (rule foldl_invariant [where P = "\<lambda>acc. nonneg (fst acc)"])
  show "nonneg (fst (Num 0, []))" by simp
  show "nonneg (fst (foldl (textureStep gray w x) s (forRange 0 (int w - 64) 64)))"
    if "nonneg (fst s)" for s x
    by (rule foldl_invariant [where P = "\<lambda>acc. nonneg (fst acc)", OF that])
       (auto simp: textureStep_def Let_def nonneg_fadd rnd_nonneg split: prod.splits)
qed

lemma analyzeTextureConsistency_unit: "inRange 0 1 (analyzeTextureConsistency p w h)"
proof -
  obtain s rs where sr: "textureScan (grayOf p) w h = (s, rs)" by (cases "textureScan (grayOf p) w h")
  then have "nonneg s" using textureScan_nonneg [of "grayOf p" w h] by simp
  then have "nonneg (if flt (calculateVariance rs) (rnd (2 / 100)) then fadd s (rnd (2 / 10)) else s)"
    by (simp add: nonneg_fadd rnd_nonneg)
  then show ?thesis
    unfolding analyzeTextureConsistency_def sr prod.case
    by (intro fmin_bound) simp_all
qed

lemma colorScore_nonneg:
  "nonneg (if B then fadd (if A then fadd (Num 0) (rnd (3 / 10)) else Num 0) (rnd (2 / 10))
           else (if A then fadd (Num 0) (rnd (3 / 10)) else Num 0))"
  by (simp add: nonneg_fadd rnd_nonneg)

lemma detectColorAnomalies_unit: "inRange 0 1 (detectColorAnomalies p)"
  unfolding detectColorAnomalies_def Let_def
  by (intro fmin_bound colorScore_nonneg) simp

lemma combinedScore_nonneg:
  assumes "inRange 0 1 f" "inRange 0 1 c" "inRange 0 1 t" "inRange 0 1 col"
  shows "nonneg (combinedScore f c t col)"
proof -
  have "nonneg (fmul x (rnd w))" if "inRange 0 1 x" "0 \<le> w" "w \<le> 1" for x w
    using nonneg_fmul_unit [OF that(1) rnd_unit [OF that(2,3)]] by (rule inRange_nonneg)
  then show ?thesis
    unfolding combinedScore_def by (intro nonneg_fadd) (simp_all add: assms)
qed

lemma rawConfidence_range:
  assumes "inRange 0 1 f" "inRange 0 1 c" "inRange 0 1 t" "inRange 0 1 col"
  shows "inRange 0 100 (rawConfidence f c t col)"
  unfolding rawConfidence_def
  by (intro fmin_bound fmax_0_nonneg nonneg_fmul_Num combinedScore_nonneg assms) simp_all

lemma analyze_raw:
  "inRange 0 100 (rawConfidence (analyzeFrequencyDomain p w h) (detectCompressionArtifacts p w h)
      (analyzeTextureConsistency p w h) (detectColorAnomalies p))"
  by (intro rawConfidence_range analyzeFrequencyDomain_unit detectCompressionArtifacts_unit
      analyzeTextureConsistency_unit detectColorAnomalies_unit)

text \<open>
  Claim C5. For every pixel buffer and all dimensions, each of the four analyzer scores
  is a finite number in \<open>[0, 1]\<close>, and the confidence of the result is a finite number in
  \<open>[0, 100]\<close>: never negative, never NaN or infinite, never above the bound.
\<close>

theorem scores_bounded:
  "inRange 0 1 (analyzeFrequencyDomain p w h) \<and>
   inRange 0 1 (detectCompressionArtifacts p w h) \<and>
   inRange 0 1 (analyzeTextureConsistency p w h) \<and>
   inRange 0 1 (detectColorAnomalies p) \<and>
   inRange 0 100 (confidence (analyzePixelData p w h))"
proof -
  from analyze_raw [of p w h] obtain q where
    q: "rawConfidence (analyzeFrequencyDomain p w h) (detectCompressionArtifacts p w h)
      (analyzeTextureConsistency p w h) (detectColorAnomalies p) = Num q" "0 \<le> q" "q \<le> 100"
    by (rule inRange_cases)
  have "0 \<le> \<lfloor>q + 1 / 2\<rfloor>" "\<lfloor>q + 1 / 2\<rfloor> \<le> 100" using q(2,3) by linarith+
  then have "inRange 0 100 (jsround (Num q))" by simp
  moreover have "confidence (analyzePixelData p w h) = jsround (Num q)"
    unfolding analyzePixelData_def buildResult_def Let_def q(1) by simp
  ultimately have "inRange 0 100 (confidence (analyzePixelData p w h))" by simp
  then show ?thesis
    by (simp add: analyzeFrequencyDomain_unit detectCompressionArtifacts_unit
      analyzeTextureConsistency_unit detectColorAnomalies_unit)
qed

text \<open>
  Claim C7. The confidence of the result is \<open>Math.round\<close> of the weighted sum of the four
  analyzer scores, times 100, clamped to \<open>[0, 100]\<close>; the sum is formed left to right in
  binary64 arithmetic with the weights 0.35, 0.25, 0.25 and 0.15, which add up to 1.
\<close>

theorem confidence_weighted_sum:
  "confidence (analyzePixelData p w h) =
     jsround (fmin (Num 100) (fmax (Num 0) (fmul
       (fadd (fadd (fadd (fmul (analyzeFrequencyDomain p w h) (rnd (35 / 100)))
                         (fmul (detectCompressionArtifacts p w h) (rnd (25 / 100))))
                   (fmul (analyzeTextureConsistency p w h) (rnd (25 / 100))))
             (fmul (detectColorAnomalies p) (rnd (15 / 100))))
       (Num 100)))) \<and>
   (35 / 100 + 25 / 100 + 25 / 100 + 15 / 100 = (1 :: rat))"
  by (simp add: analyzePixelData_def buildResult_def rawConfidence_def combinedScore_def
      Let_def)

lemma result_fields:
  obtains c :: rat where
    "rawConfidence (analyzeFrequencyDomain p w h) (detectCompressionArtifacts p w h)
       (analyzeTextureConsistency p w h) (detectColorAnomalies p) = Num c"
    "0 \<le> c" "c \<le> 100"
    "confidence (analyzePixelData p w h) = Num (of_int \<lfloor>c + 1 / 2\<rfloor>)"
    "riskLevel (analyzePixelData p w h) = (if 70 < c then high else if 40 < c then medium else low)"
    "isFake (analyzePixelData p w h) = (50 < c)"
proof -
  from analyze_raw [of p w h] obtain c where
    c: "rawConfidence (analyzeFrequencyDomain p w h) (detectCompressionArtifacts p w h)
      (analyzeTextureConsistency p w h) (detectColorAnomalies p) = Num c" "0 \<le> c" "c \<le> 100"
    by (rule inRange_cases)
  show ?thesis
    by (rule that [of c])
       (simp_all add: c analyzePixelData_def buildResult_def Let_def classify_def fgt_def)
qed

text \<open>
  Claim C3, amended. The risk level is decided by the confidence before it is rounded,
  that is by the value \<open>c\<close> of \<open>rawConfidence\<close> on the four analyzer scores: high if
  \<open>c > 70\<close>, medium if \<open>40 < c \<le> 70\<close>, low otherwise; the confidence field is
  \<open>n = \<lfloor>c + 1/2\<rfloor>\<close>. So a field of 71 or more means high, 41 to 69 medium, 39 or less
  low, while a field of exactly 70 goes with medium or high and a field of exactly 40
  with low or medium.
\<close>

theorem riskLevel_from_unrounded:
  "\<exists>(c :: rat) n.
     rawConfidence (analyzeFrequencyDomain p w h) (detectCompressionArtifacts p w h)
       (analyzeTextureConsistency p w h) (detectColorAnomalies p) = Num c \<and>
     0 \<le> c \<and> c \<le> 100 \<and> n = \<lfloor>c + 1 / 2\<rfloor> \<and>
     confidence (analyzePixelData p w h) = Num (of_int n) \<and>
     riskLevel (analyzePixelData p w h) =
       (if 70 < c then high else if 40 < c then medium else low) \<and>
     (if 71 \<le> n then riskLevel (analyzePixelData p w h) = high
      else if n = 70 then riskLevel (analyzePixelData p w h) \<in> {medium, high}
      else if 41 \<le> n then riskLevel (analyzePixelData p w h) = medium
      else if n = 40 then riskLevel (analyzePixelData p w h) \<in> {low, medium}
      else riskLevel (analyzePixelData p w h) = low)"
proof -
  obtain c :: rat where r: "rawConfidence (analyzeFrequencyDomain p w h)
      (detectCompressionArtifacts p w h) (analyzeTextureConsistency p w h) (detectColorAnomalies p) = Num c"
    and c: "0 \<le> c" "c \<le> 100"
    "confidence (analyzePixelData p w h) = Num (of_int \<lfloor>c + 1 / 2\<rfloor>)"
    "riskLevel (analyzePixelData p w h) = (if 70 < c then high else if 40 < c then medium else low)"
    by (rule result_fields)
  define n where "n = \<lfloor>c + 1 / 2\<rfloor>"
  have n: "of_int n \<le> c + 1 / 2" "c + 1 / 2 < of_int n + 1" unfolding n_def by linarith+
  have "70 < c" if "71 \<le> n"
  proof -
    have "(71 :: rat) \<le> of_int n" using that by (metis of_int_le_iff of_int_numeral)
    then show ?thesis using n by linarith
  qed
  moreover have "40 < c" if "41 \<le> n"
  proof -
    have "(41 :: rat) \<le> of_int n" using that by (metis of_int_le_iff of_int_numeral)
    then show ?thesis using n by linarith
  qed
  moreover have "c \<le> 70" if "n \<le> 69"
  proof -
    have "of_int n \<le> (69 :: rat)" using that by (metis of_int_le_iff of_int_numeral)
    then show ?thesis using n by linarith
  qed
  moreover have "c \<le> 40" if "n \<le> 39"
  proof -
    have "of_int n \<le> (39 :: rat)" using that by (metis of_int_le_iff of_int_numeral)
    then show ?thesis using n by linarith
  qed
  moreover have "c < 71" if "n = 70" using n that by simp
  moreover have "39 < c" if "n = 40" using n that by simp
  ultimately have "if 71 \<le> n then riskLevel (analyzePixelData p w h) = high
      else if n = 70 then riskLevel (analyzePixelData p w h) \<in> {medium, high}
      else if 41 \<le> n then riskLevel (analyzePixelData p w h) = medium
      else if n = 40 then riskLevel (analyzePixelData p w h) \<in> {low, medium}
      else riskLevel (analyzePixelData p w h) = low"
    unfolding c(4) by (auto simp: not_le)
  then show ?thesis using r c n_def by blast
qed

text \<open>
  Claim C4, amended. \<open>isFake\<close> holds exactly when the confidence before rounding, the
  value \<open>c\<close> of \<open>rawConfidence\<close> on the four analyzer scores, exceeds 50, whatever the
  risk level; the confidence field is \<open>n = \<lfloor>c + 1/2\<rfloor>\<close>. So a
  field of 51 or more means \<open>isFake\<close>, a field of 49 or less means not \<open>isFake\<close>, and a
  field of exactly 50 goes with either.
\<close>

theorem isFake_from_unrounded:
  "\<exists>(c :: rat) n.
     rawConfidence (analyzeFrequencyDomain p w h) (detectCompressionArtifacts p w h)
       (analyzeTextureConsistency p w h) (detectColorAnomalies p) = Num c \<and>
     0 \<le> c \<and> c \<le> 100 \<and> n = \<lfloor>c + 1 / 2\<rfloor> \<and>
     confidence (analyzePixelData p w h) = Num (of_int n) \<and>
     isFake (analyzePixelData p w h) = (50 < c) \<and>
     (if 51 \<le> n then isFake (analyzePixelData p w h)
      else if n \<le> 49 then \<not> isFake (analyzePixelData p w h) else n = 50)"
proof -
  obtain c :: rat where r: "rawConfidence (analyzeFrequencyDomain p w h)
      (detectCompressionArtifacts p w h) (analyzeTextureConsistency p w h) (detectColorAnomalies p) = Num c"
    and c: "0 \<le> c" "c \<le> 100"
    "confidence (analyzePixelData p w h) = Num (of_int \<lfloor>c + 1 / 2\<rfloor>)"
    "isFake (analyzePixelData p w h) = (50 < c)"
    by (rule result_fields)
  define n where "n = \<lfloor>c + 1 / 2\<rfloor>"
  have n: "of_int n \<le> c + 1 / 2" "c + 1 / 2 < of_int n + 1" unfolding n_def by linarith+
  have "50 < c" if "51 \<le> n"
  proof -
    have "(51 :: rat) \<le> of_int n" using that by (metis of_int_le_iff of_int_numeral)
    then show ?thesis using n by linarith
  qed
  moreover have "c \<le> 50" if "n \<le> 49"
  proof -
    have "of_int n \<le> (49 :: rat)" using that by (metis of_int_le_iff of_int_numeral)
    then show ?thesis using n by linarith
  qed
  ultimately have "if 51 \<le> n then isFake (analyzePixelData p w h)
      else if n \<le> 49 then \<not> isFake (analyzePixelData p w h) else n = 50"
    unfolding c(4) by (auto simp: not_le)
  then show ?thesis using r c n_def by blast
qed

declare forRange.simps [simp del]

lemma fadd_NaN_right [simp]: "fadd x NaN = NaN"
  by (cases x) simp_all

lemma fmul_NaN_right [simp]: "fmul x NaN = NaN"
  by (cases x) simp_all

lemma fdiv_NaN_right [simp]: "fdiv x NaN = NaN"
  by (cases x) simp_all

lemma fsub_NaN [simp]: "fsub x NaN = NaN" "fsub NaN x = NaN"
  by (simp_all add: fsub_def)

lemma flt_NaN_right [simp]: "\<not> flt x NaN"
  by (cases x) simp_all

lemma foldl_fadd_NaN_start [simp]: "foldl fadd NaN xs = NaN"
  by (induction xs) simp_all

lemma foldl_fadd_NaN: "NaN \<in> set xs \<Longrightarrow> foldl fadd a xs = NaN"
  by (induction xs arbitrary: a) auto

lemma foldl_const_NaN_start [simp]: "foldl (\<lambda>s v. NaN) NaN xs = NaN"
  by (induction xs) simp_all

lemma foldl_const_NaN: "xs \<noteq> [] \<Longrightarrow> foldl (\<lambda>s v. NaN) a xs = NaN"
  by (cases xs) simp_all

lemma calculateVariance_NaN:
  assumes "NaN \<in> set xs"
  shows "calculateVariance xs = NaN"
proof -
  from assms obtain y ys where xs: "xs = y # ys" by (cases xs) auto
  have "foldl fadd (hd xs) (tl xs) = NaN"
    using assms by (auto simp: xs foldl_fadd_NaN)
  then show ?thesis
    by (simp add: calculateVariance_def Let_def foldl_const_NaN xs)
qed

lemma elemAt_out: "length xs \<le> i \<Longrightarrow> elemAt xs i = NaN"
  by (simp add: elemAt_def)

lemma boundary_out_of_range:
  assumes "i < 4"
    and "length gray \<le> (by + 2) * w + (bx + i) \<or> length gray \<le> by * w + (bx + i)"
  shows "\<not> boundaryFires gray w by bx"
proof -
  let ?b = "map (\<lambda>i. elemAt gray (by * w + (bx + i))) [0 ..< 4]"
  let ?s = "map (\<lambda>i. elemAt gray ((by + 2) * w + (bx + i))) [0 ..< 4]"
  have i: "i \<in> set [0 ..< 4]" using assms(1) by simp
  have "length gray \<le> (by + 2) * w + (bx + i)" using assms(2) by auto
  then have "elemAt gray ((by + 2) * w + (bx + i)) = NaN" by (rule elemAt_out)
  then have "NaN \<in> set ?s" using i by (metis (no_types, lifting) image_eqI set_map)
  then have "calculateVariance ?s = NaN" by (rule calculateVariance_NaN)
  then show ?thesis by (simp add: boundaryFires_def Let_def fgt_def)
qed

lemma forRange_eq:
  assumes "0 < step"
  shows "forRange i bound step =
    map (\<lambda>k. i + k * step) [0 ..< nat ((bound - int i + int step - 1) div int step)]"
  using assms
proof (induction i bound step rule: forRange.induct)
  case (1 i bound step)
  let ?n = "\<lambda>i. nat ((bound - int i + int step - 1) div int step)"
  show ?case
  proof (cases "int i < bound")
    case True
    have "bound - int i + int step - 1 = (bound - int (i + step) + int step - 1) + int step"
      by simp
    then have "(bound - int i + int step - 1) div int step
        = (bound - int (i + step) + int step - 1) div int step + 1"
      using 1(2) by (simp only: div_add_self2)
    moreover have "0 \<le> (bound - int (i + step) + int step - 1) div int step"
      using True 1(2) by (intro pos_imp_zdiv_nonneg_iff [THEN iffD2]) simp_all
    ultimately have n: "?n i = Suc (?n (i + step))" by simp
    have "forRange i bound step = i # forRange (i + step) bound step"
      using True 1(2) by (subst forRange.simps) simp
    also have "forRange (i + step) bound step = map (\<lambda>k. i + step + k * step) [0 ..< ?n (i + step)]"
      using 1 True by simp
    also have "i # \<dots> = map (\<lambda>k. i + k * step) [0 ..< ?n i]"
      unfolding n by (simp add: upt_conv_Cons map_Suc_upt [symmetric] del: upt_Suc)
    finally show ?thesis .
  next
    case False
    then have "(bound - int i + int step - 1) div int step \<le> (int step - 1) div int step"
      using 1(2) by (intro zdiv_mono1) simp_all
    also have "(int step - 1) div int step = 0"
      using 1(2) by (intro div_pos_pos_trivial) simp_all
    finally have "(bound - int i + int step - 1) div int step \<le> 0" .
    then have "?n i = 0" by simp
    moreover have "forRange i bound step = []" using False by (subst forRange.simps) simp
    ultimately show ?thesis by simp
  qed
qed

lemma length_forRange: "0 < step \<Longrightarrow>
    length (forRange i bound step) = nat ((bound - int i + int step - 1) div int step)"
  by (simp add: forRange_eq)

lemma length_forRange4: "length (forRange 0 (int n) 4) = (n + 3) div 4"
proof -
  have "nat ((int n - int 0 + int 4 - 1) div int 4) = nat (int ((n + 3) div 4))"
    by (simp only: zdiv_int) simp
  then show ?thesis by (simp add: length_forRange)
qed

lemma length_grayOf: "length (grayOf p) = (length p + 3) div 4"
  by (simp add: grayOf_def length_forRange4)

lemma length_lumaOf: "length (lumaOf p) = (length p + 3) div 4"
  by (simp add: lumaOf_def length_forRange4)

text \<open>
  Claim C9. The compression-boundary analyzer is a total function whose score is a
  finite number in \<open>[0, 1]\<close> for all dimensions. When one of the four sampled positions of
  the boundary row or of the inside row lies outside the grayscale array, the variance
  of that sample is NaN, the comparison with 0.05 is false, and the boundary leaves the
  running total unchanged.
\<close>

theorem compression_out_of_range_ignored:
  assumes "i < 4"
    and "length (grayOf p) \<le> (by + 2) * w + (bx + i) \<or> length (grayOf p) \<le> by * w + (bx + i)"
  shows "\<not> boundaryFires (grayOf p) w by bx \<and> artifactStep (grayOf p) w by s bx = s \<and>
    inRange 0 1 (detectCompressionArtifacts p w h)"
  using boundary_out_of_range [OF assms] detectCompressionArtifacts_unit [of p w h]
  by (simp add: artifactStep_def)

theorem compression_out_of_range_ignored_witness:
  "(1 :: nat) < 4 \<and> length (grayOf (replicate 324 0)) \<le> 8 * 9 + (8 + 1) \<and>
   \<not> boundaryFires (grayOf (replicate 324 0)) 9 8 8 \<and>
   artifactStep (grayOf (replicate 324 0)) 9 8 (Num 0) 8 = Num 0 \<and>
   inRange 0 1 (detectCompressionArtifacts (replicate 324 0) 9 9)"
proof -
  have l: "length (grayOf (replicate 324 0)) = 81" by (simp add: length_grayOf)
  have h: "length (grayOf (replicate 324 0)) \<le> (8 + 2) * 9 + (8 + 1) \<or>
      length (grayOf (replicate 324 0)) \<le> 8 * 9 + (8 + 1)"
    by (simp add: l)
  show ?thesis
    using compression_out_of_range_ignored [of 1 "replicate 324 0" 8 9 8 "Num 0" 9, OF _ h]
    by (simp add: l)
qed

lemma length_frequencyBlocks:
  "length (frequencyBlocks w h) = nat ((int w - 1) div 8) * nat ((int h - 1) div 8)"
  by (simp add: frequencyBlocks_def length_concat comp_def sum_list_triv length_forRange)

lemma foldl_nested:
  "foldl (\<lambda>s y. foldl (f y) s xs) a ys = foldl (\<lambda>s (y, x). f y s x) a (concat (map (\<lambda>y. map (Pair y) xs) ys))"
proof (induction ys arbitrary: a)
  case Nil
  show ?case by simp
next
  case (Cons y ys)
  have "foldl (\<lambda>s (y, x). f y s x) a (map (Pair y) xs) = foldl (f y) a xs" for a
    by (induction xs arbitrary: a) simp_all
  then show ?case using Cons by simp
qed

lemma frequencyTotal_blocks:
  "frequencyTotal luma w h =
     foldl (\<lambda>s (by, bx). frequencyStep luma w by s bx) (Num 0) (frequencyBlocks w h)"
  unfolding frequencyTotal_def frequencyBlocks_def by (rule foldl_nested)

lemma fl_distinct [simp]: "fl m e \<noteq> NaN" "fl m e \<noteq> PInf" "fl m e \<noteq> NInf"
  "NaN \<noteq> fl m e" "PInf \<noteq> fl m e" "NInf \<noteq> fl m e"
  by (simp_all add: fl_def)

lemma pow2_align: "e0 \<le> e \<Longrightarrow> of_int m * pow2 e = of_int (m * 2 ^ nat (e - e0)) * pow2 e0"
  using pow2_add [of "e - e0" e0] pow2_nat [of "nat (e - e0)"] by simp

lemma fl_align: "e0 \<le> e \<Longrightarrow> fl m e = fl (m * 2 ^ nat (e - e0)) e0"
  unfolding fl_def using pow2_align [of e0 e m] by simp

lemma fl_less_same: "flt (fl m1 e) (fl m2 e) \<longleftrightarrow> m1 < m2"
proof -
  have "flt (fl m1 e) (fl m2 e) \<longleftrightarrow> (of_int m1 :: rat) * pow2 e < of_int m2 * pow2 e"
    by (simp only: fl_def flt.simps)
  also have "\<dots> \<longleftrightarrow> (of_int m1 :: rat) < of_int m2"
    by (rule mult_less_cancel_right_pos) simp
  also have "\<dots> \<longleftrightarrow> m1 < m2" by (rule of_int_less_iff)
  finally show ?thesis .
qed

lemma fl_eq_same: "fl m1 e = fl m2 e \<longleftrightarrow> m1 = m2"
  by (simp add: fl_def)

lemma flt_fl: "flt (fl m1 e1) (fl m2 e2) \<longleftrightarrow>
    m1 * 2 ^ nat (e1 - min e1 e2) < m2 * 2 ^ nat (e2 - min e1 e2)"
  by (subst fl_align [of "min e1 e2" e1], simp, subst fl_align [of "min e1 e2" e2], simp)
     (rule fl_less_same)

lemma fl_eq_iff: "fl m1 e1 = fl m2 e2 \<longleftrightarrow>
    m1 * 2 ^ nat (e1 - min e1 e2) = m2 * 2 ^ nat (e2 - min e1 e2)"
  by (subst fl_align [of "min e1 e2" e1], simp, subst fl_align [of "min e1 e2" e2], simp)
     (rule fl_eq_same)

lemma fneg_fl: "fneg (fl m e) = fl (- m) e"
  by (simp add: fl_def)

lemma fabs_fl: "fabs (fl m e) = fl \<bar>m\<bar> e"
  by (simp add: fl_def abs_mult)

lemma fsub_fl: "fsub (fl m1 e1) (fl m2 e2) = fadd (fl m1 e1) (fl (- m2) e2)"
  by (simp add: fsub_def fneg_fl)

lemma fmul_fl: "fmul (fl m1 e1) (fl m2 e2) = rndfl (m1 * m2) (e1 + e2)"
  by (simp add: fl_def rndfl_def pow2_add ac_simps)

lemma fgt_fl: "fgt (fl m1 e1) (fl m2 e2) \<longleftrightarrow> flt (fl m2 e2) (fl m1 e1)"
  by (simp add: fgt_def)

lemma feq_fl: "feq (fl m1 e1) (fl m2 e2) \<longleftrightarrow> fl m1 e1 = fl m2 e2"
  by (simp add: feq_def)

lemma fmin_fl: "fmin (fl m1 e1) (fl m2 e2) = (if flt (fl m2 e2) (fl m1 e1) then fl m2 e2 else fl m1 e1)"
  by (simp add: fmin_def)

lemma fmax_fl: "fmax (fl m1 e1) (fl m2 e2) = (if flt (fl m1 e1) (fl m2 e2) then fl m2 e2 else fl m1 e1)"
  by (simp add: fmax_def)

lemma Num_fl: "Num 0 = fl 0 0" "Num 1 = fl 1 0" "Num (numeral n) = fl (numeral n) 0"
  by (simp_all add: fl_def)

lemma Num_of_nat_fl: "Num (of_nat n) = fl (int n) 0"
  by (simp add: fl_def)

lemma jsround_fl:
  "jsround (fl m e) =
     Num (of_int (if 0 \<le> e then m * 2 ^ nat e else (2 * m + 2 ^ nat (- e)) div 2 ^ nat (1 - e)))"
proof (cases "0 \<le> e")
  case True
  then have "of_int m * pow2 e = (of_int (m * 2 ^ nat e) :: rat)"
    using pow2_nat [of "nat e"] by simp
  then have "\<lfloor>of_int m * pow2 e + 1 / 2\<rfloor> = m * 2 ^ nat e"
    by (simp only:) linarith
  then show ?thesis using True by (simp add: fl_def)
next
  case False
  then have "pow2 e = 1 / 2 ^ nat (- e)" using pow2_neg_nat [of "nat (- e)"] by simp
  then have "of_int m * pow2 e + 1 / 2 = (of_int (2 * m + 2 ^ nat (- e)) :: rat) / of_int (2 * 2 ^ nat (- e))"
    by (simp add: field_simps)
  then have "\<lfloor>of_int m * pow2 e + 1 / 2\<rfloor> = (2 * m + 2 ^ nat (- e)) div (2 * 2 ^ nat (- e))"
    by (simp only: floor_divide_of_int_eq)
  moreover have "(2 :: int) * 2 ^ nat (- e) = 2 ^ nat (1 - e)"
    using False by (simp add: nat_diff_distrib' flip: power_Suc)
  ultimately show ?thesis using False by (simp add: fl_def)
qed

lemma expo_ratio:
  assumes "0 < b" "a \<noteq> 0"
  shows "expo \<bar>of_int a / of_int b * pow2 e\<bar> = rq_ex a b (blen a - blen b) + e"
proof -
  define d where "d = blen a - blen b"
  define x :: rat where "x = \<bar>of_int a\<bar> / of_int b"
  have b0: "b \<noteq> 0" and bp: "(0 :: rat) < of_int b" using assms by simp_all
  have x0: "0 < x" using assms by (simp add: x_def)
  have ba: "pow2 (blen a - 1) \<le> \<bar>of_int a\<bar>" "\<bar>of_int a :: rat\<bar> < pow2 (blen a)"
    using blen_bounds [OF assms(2)] by simp_all
  have bb: "pow2 (blen b - 1) \<le> of_int b" "(of_int b :: rat) < pow2 (blen b)"
    using blen_bounds [OF b0] assms(1) by simp_all
  have lo: "pow2 (d - 1) < x"
  proof -
    have "pow2 (d - 1) * of_int b < pow2 (d - 1) * pow2 (blen b)"
      using bb(2) by (intro mult_strict_left_mono) simp_all
    also have "\<dots> = pow2 (d - 1 + blen b)" by (simp only: pow2_add)
    also have "d - 1 + blen b = blen a - 1" by (simp add: d_def)
    also have "pow2 (blen a - 1) \<le> \<bar>of_int a\<bar>" by (rule ba(1))
    finally show ?thesis using bp by (simp add: x_def field_simps)
  qed
  have hi: "x < pow2 (d + 1)"
  proof -
    have "\<bar>of_int a :: rat\<bar> < pow2 (blen a)" by (rule ba(2))
    also have "blen a = (d + 1) + (blen b - 1)" by (simp add: d_def)
    also have "pow2 ((d + 1) + (blen b - 1)) = pow2 (d + 1) * pow2 (blen b - 1)" by (simp only: pow2_add)
    also have "\<dots> \<le> pow2 (d + 1) * of_int b"
      using bb(1) by (intro mult_left_mono) simp_all
    finally show ?thesis using bp by (simp add: x_def field_simps)
  qed
  have ge: "(if 0 \<le> d then b * 2 ^ nat d \<le> \<bar>a\<bar> else b \<le> \<bar>a\<bar> * 2 ^ nat (- d)) \<longleftrightarrow> pow2 d \<le> x"
  proof (cases "0 \<le> d")
    case True
    then have p: "pow2 d = of_int (2 ^ nat d)" using pow2_nat [of "nat d"] by simp
    have "pow2 d \<le> x \<longleftrightarrow> (of_int (b * 2 ^ nat d) :: rat) \<le> of_int \<bar>a\<bar>"
      unfolding p x_def using bp by (simp add: field_simps)
    also have "\<dots> \<longleftrightarrow> b * 2 ^ nat d \<le> \<bar>a\<bar>" by (simp only: of_int_le_iff)
    finally show ?thesis using True by simp
  next
    case False
    then have p: "pow2 d = 1 / of_int (2 ^ nat (- d))" using pow2_neg_nat [of "nat (- d)"] by simp
    have "pow2 d \<le> x \<longleftrightarrow> (of_int b :: rat) \<le> of_int (\<bar>a\<bar> * 2 ^ nat (- d))"
      unfolding p x_def using bp by (simp add: field_simps)
    also have "\<dots> \<longleftrightarrow> b \<le> \<bar>a\<bar> * 2 ^ nat (- d)" by (simp only: of_int_le_iff)
    finally show ?thesis using False by simp
  qed
  define ex where "ex = rq_ex a b d"
  have ex: "pow2 ex \<le> x" "x < pow2 (ex + 1)"
  proof -
    show "pow2 ex \<le> x"
      using ge lo unfolding ex_def rq_ex_def by (auto simp: less_imp_le)
    show "x < pow2 (ex + 1)"
      using ge hi unfolding ex_def rq_ex_def by (auto simp: not_le)
  qed
  have q: "\<bar>of_int a / of_int b * pow2 e\<bar> = x * pow2 e"
    using bp by (simp add: x_def abs_mult)
  have "expo (x * pow2 e) = ex + e"
  proof (rule expo_unique)
    show "0 < x * pow2 e" using x0 by simp
    show "pow2 (ex + e) \<le> x * pow2 e"
      unfolding pow2_add using ex(1) by (intro mult_right_mono) simp_all
    have "x * pow2 e < pow2 (ex + 1) * pow2 e"
      using ex(2) by (intro mult_strict_right_mono) simp_all
    also have "\<dots> = pow2 (ex + e + 1)" by (simp add: pow2_add [symmetric] ac_simps)
    finally show "x * pow2 e < pow2 (ex + e + 1)" .
  qed
  then show ?thesis unfolding q ex_def d_def .
qed

lemma rnddiv_eval:
  assumes "0 < b" "a \<noteq> 0" "rq_ex a b (blen a - blen b) + e \<le> 1022"
  shows "rnddiv a b e =
    rq_t a b (e - max (rq_ex a b (blen a - blen b) + e) (- 1022) + 52)
      (max (rq_ex a b (blen a - blen b) + e) (- 1022))"
proof -
  define q :: rat where "q = of_int a / of_int b * pow2 e"
  define ex where "ex = rq_ex a b (blen a - blen b) + e"
  define E where "E = max ex (- 1022)"
  define t where "t = e - E + 52"
  have bp: "(0 :: rat) < of_int b" using assms by simp
  have q0: "q \<noteq> 0" using assms by (simp add: q_def)
  have exq: "expo \<bar>q\<bar> = ex" unfolding q_def ex_def by (rule expo_ratio [OF assms(1,2)])
  have qu: "q / pow2 (E - 52) = of_int a / of_int b * pow2 t"
    by (simp add: q_def t_def pow2_diff pow2_add field_simps)
  have r: "round_even (of_int a / of_int b * pow2 t) =
      (if 0 \<le> t then rdiv (a * 2 ^ nat t) b else rdiv a (b * 2 ^ nat (- t)))"
  proof (cases "0 \<le> t")
    case True
    then have "pow2 t = of_int (2 ^ nat t)" using pow2_nat [of "nat t"] by simp
    then have eq: "of_int a / of_int b * pow2 t = (of_int (a * 2 ^ nat t) :: rat) / of_int b" by simp
    show ?thesis unfolding eq using True by (simp only: round_even_frac [OF assms(1)] if_True)
  next
    case False
    then have "pow2 t = 1 / of_int (2 ^ nat (- t))" using pow2_neg_nat [of "nat (- t)"] by simp
    then have eq: "of_int a / of_int b * pow2 t = (of_int a :: rat) / of_int (b * 2 ^ nat (- t))" by simp
    have "0 < b * 2 ^ nat (- t)" using assms(1) by simp
    then show ?thesis unfolding eq using False by (simp only: round_even_frac if_False)
  qed
  have "quantize q = of_int (round_even (q / pow2 (E - 52))) * pow2 (E - 52)"
    using q0 by (simp add: quantize_def Let_def exq E_def)
  then have Q: "quantize q = of_int (if 0 \<le> t then rdiv (a * 2 ^ nat t) b else rdiv a (b * 2 ^ nat (- t))) * pow2 (E - 52)"
    unfolding qu r .
  have "\<bar>q\<bar> < pow2 (ex + 1)" using expo_bounds [of "\<bar>q\<bar>"] q0 exq by simp
  also have "\<dots> \<le> pow2 1023" using assms(3) by (simp add: ex_def)
  finally have qb: "\<bar>q\<bar> < pow2 1023" .
  have "max (expo \<bar>q\<bar>) (- 1022) - 52 \<le> 1024" using assms(3) exq ex_def by linarith
  then have "pow2 (max (expo \<bar>q\<bar>) (- 1022) - 52) \<le> pow2 1024" by simp
  also have "pow2 1024 = 2 * pow2 1023" using pow2_Suc [of 1023] by simp
  finally have "pow2 (max (expo \<bar>q\<bar>) (- 1022) - 52) / 2 \<le> pow2 1023" by simp
  with quantize_close [OF q0] have "\<bar>quantize q - q\<bar> \<le> pow2 1023" by linarith
  with qb have "\<bar>quantize q\<bar> < 2 * pow2 1023" by linarith
  then have "\<bar>quantize q\<bar> < pow2 1024" using pow2_Suc [of 1023] by simp
  then have "rnd q = Num (quantize q)"
    by (auto simp: rnd_def Let_def abs_if split: if_splits)
  then show ?thesis
    unfolding rnddiv_def q_def [symmetric] Q rq_t_def fl_def
    by (simp add: t_def E_def ex_def)
qed

lemma fdiv_fl:
  "fdiv (fl m1 e1) (fl m2 e2) =
     (if m2 = 0 then (if m1 = 0 then NaN else if 0 < m1 then PInf else NInf)
      else if 0 < m2 then rnddiv m1 m2 (e1 - e2) else rnddiv (- m1) (- m2) (e1 - e2))"
proof (cases "m2 = 0")
  case True
  have "\<not> pow2 e1 < 0" by (simp add: not_less)
  with True show ?thesis by (simp add: fl_def zero_less_mult_iff)
next
  case False
  have 1: "of_int m1 * pow2 e1 / (of_int m2 * pow2 e2) = of_int m1 / of_int m2 * pow2 (e1 - e2)"
    by (simp add: pow2_diff)
  have 2: "(of_int (- m1) :: rat) / of_int (- m2) = of_int m1 / of_int m2" by simp
  have "fdiv (fl m1 e1) (fl m2 e2) = rnd (of_int m1 / of_int m2 * pow2 (e1 - e2))"
    using False unfolding fl_def fdiv.simps 1 [symmetric] by simp
  then show ?thesis using False unfolding rnddiv_def 2 by simp
qed

lemma rnddiv_0: "rnddiv 0 b e = fl 0 0"
  by (simp add: rnddiv_def rnd_def quantize_def fl_def not_le)

lemma rnd_literal:
  "rnd (numeral a / numeral b) = rnddiv (numeral a) (numeral b) 0"
  "rnd (1 / numeral b) = rnddiv 1 (numeral b) 0"
  "rnd (numeral a) = rnddiv (numeral a) 1 0"
  "rnd 0 = fl 0 0" "rnd 1 = rnddiv 1 1 0"
  by (simp_all add: rnddiv_def rnd_def quantize_def fl_def not_le)

lemmas feval = fadd_fl fsub_fl fmul_fl fdiv_fl fneg_fl fabs_fl flt_fl fgt_fl feq_fl fl_eq_iff
  fmin_fl fmax_fl jsround_fl rndfl_eval rndb_def normfl_def blen_simps rdiv_def rnear_def
  rnddiv_eval rnddiv_0 rq_ex_def rq_t_def rnd_literal Num_fl

lemma iter_add_foldl: "foldl fadd a (replicate n v) = iter_add n v a"
  by (induction n arbitrary: a) simp_all

lemma iter_add_numeral: "iter_add (numeral k) v a = iter_add (pred_numeral k) v (fadd a v)"
  by (simp add: numeral_eq_Suc)

lemma iter_add_add: "iter_add (m + n) v a = iter_add n v (iter_add m v a)"
  by (induction m arbitrary: a) simp_all

lemma length_pixelsOf [simp]: "length (pixelsOf f n) = 4 * n"
  by (induction n) (simp_all add: pixelsOf_def split: prod.splits)

lemma pixelsOf_Suc: "pixelsOf f (Suc n) = pixelsOf f n @ (case f n of (r, g, b) \<Rightarrow> [r, g, b, 255])"
  by (simp add: pixelsOf_def)

lemma pixelsOf_nth:
  assumes "i < n" "c < 3"
  shows "pixelsOf f n ! (4 * i + c) = channel c (f i)"
  using assms
proof (induction n)
  case 0
  then show ?case by simp
next
  case (Suc n)
  obtain r g b where f: "f n = (r, g, b)" by (cases "f n")
  show ?case
  proof (cases "i < n")
    case True
    then have "4 * i + c < length (pixelsOf f n)" using Suc.prems by simp
    then show ?thesis using Suc True by (simp add: pixelsOf_Suc nth_append)
  next
    case False
    then have i: "i = n" using Suc.prems by simp
    have "c = 0 \<or> c = 1 \<or> c = 2" using Suc.prems by auto
    then show ?thesis
      by (auto simp: i pixelsOf_Suc nth_append f channel_def)
  qed
qed

lemma px_pixelsOf:
  assumes "i < n" "c < 3"
  shows "px (pixelsOf f n) (4 * i + c) = Num (of_nat (channel c (f i)))"
  using assms pixelsOf_nth [OF assms, of f] by (simp add: px_def)

lemma forRange_pixels: "forRange 0 (int (4 * n)) 4 = map (\<lambda>k. 4 * k) [0 ..< n]"
proof -
  have "(int (4 * n) - int 0 + int 4 - 1) div int 4 = int n" by simp
  then show ?thesis by (simp add: forRange_eq mult.commute)
qed

lemma lumaOf_pixelsOf: "lumaOf (pixelsOf f n) = map (\<lambda>i. lumaRGB (f i)) [0 ..< n]"
proof -
  have "lumaAt (pixelsOf f n) (4 * i) = lumaRGB (f i)" if "i < n" for i
    using px_pixelsOf [OF that, of 0 f] px_pixelsOf [OF that, of 1 f] px_pixelsOf [OF that, of 2 f]
    by (simp add: lumaAt_def lumaRGB_def channel_def Let_def split: prod.splits)
  then show ?thesis
    unfolding lumaOf_def length_pixelsOf forRange_pixels by (simp add: comp_def)
qed

lemma grayOf_pixelsOf: "grayOf (pixelsOf f n) = map (\<lambda>i. grayRGB (f i)) [0 ..< n]"
proof -
  have "grayAt (pixelsOf f n) (4 * i) = grayRGB (f i)" if "i < n" for i
    using px_pixelsOf [OF that, of 0 f] px_pixelsOf [OF that, of 1 f] px_pixelsOf [OF that, of 2 f]
    by (simp add: grayAt_def grayRGB_def channel_def Let_def split: prod.splits)
  then show ?thesis
    unfolding grayOf_def length_pixelsOf forRange_pixels by (simp add: comp_def)
qed

lemma channelValues_pixelsOf:
  assumes "c < 3"
  shows "channelValues (pixelsOf f n) c =
    map (\<lambda>i. fdiv (Num (of_nat (channel c (f i)))) (Num 255)) [0 ..< min n 1000]"
proof -
  have s: "sampleCount (pixelsOf f n) = min n 1000" by (simp add: sampleCount_def)
  have "px (pixelsOf f n) (i * 4 + c) = Num (of_nat (channel c (f i)))" if "i < min n 1000" for i
    using px_pixelsOf [of i n c f] that assms by (simp add: mult.commute)
  then show ?thesis by (simp add: channelValues_def s)
qed

lemma elemAt_map_upt: "elemAt (map g [0 ..< n]) i = (if i < n then g i else NaN)"
  by (simp add: elemAt_def)

lemma map_const_upt: "map (\<lambda>i. c) [0 ..< n] = replicate n c"
  by (induction n) (simp_all add: replicate_append_same)

lemma lumaOf_uniform: "lumaOf (uniformImage c n) = replicate n (lumaRGB c)"
  by (simp add: uniformImage_def lumaOf_pixelsOf map_const_upt)

lemma grayOf_uniform: "grayOf (uniformImage c n) = replicate n (grayRGB c)"
  by (simp add: uniformImage_def grayOf_pixelsOf map_const_upt)

lemma channelValues_uniform:
  "c < 3 \<Longrightarrow> channelValues (uniformImage p n) c =
     replicate (min n 1000) (fdiv (Num (of_nat (channel c p))) (Num 255))"
  by (simp add: uniformImage_def channelValues_pixelsOf map_const_upt)

lemma concat_replicate_replicate: "concat (replicate m (replicate k x)) = replicate (m * k) x"
  by (induction m) (simp_all add: replicate_add)

lemma getBlock_uniform:
  assumes "0 < k" "(by + k - 1) * w + (bx + k - 1) < n"
  shows "getBlock (replicate n L) w by bx k = replicate (k * k) L"
proof -
  have "elemAt (replicate n L) ((by + y) * w + (bx + x)) = L" if "y < k" "x < k" for x y
  proof -
    have "(by + y) * w \<le> (by + k - 1) * w" using that by (intro mult_le_mono1) simp
    moreover have "bx + x \<le> bx + k - 1" using that by simp
    ultimately have "(by + y) * w + (bx + x) < n" using assms(2) by linarith
    then show ?thesis by (simp add: elemAt_def)
  qed
  then have "map (\<lambda>x. elemAt (replicate n L) ((by + y) * w + (bx + x))) [0 ..< k] = replicate k L"
    if "y < k" for y
    using that by (simp add: map_const_upt [symmetric])
  then have "map (\<lambda>y. map (\<lambda>x. elemAt (replicate n L) ((by + y) * w + (bx + x))) [0 ..< k]) [0 ..< k]
      = replicate k (replicate k L)"
    by (simp add: map_const_upt [symmetric])
  then show ?thesis by (simp add: getBlock_def concat_replicate_replicate)
qed

lemma set_forRange: "x \<in> set (forRange i bound step) \<Longrightarrow> int x < bound \<and> i \<le> x"
proof (induction i bound step rule: forRange.induct)
  case (1 i bound step)
  from 1(2) show ?case
    by (subst (asm) forRange.simps) (use 1(1) in \<open>auto split: if_splits\<close>)
qed

lemma in_frequencyBlocks: "(by, bx) \<in> set (frequencyBlocks w h) \<Longrightarrow> by + 8 < h \<and> bx + 8 < w"
  by (auto simp: frequencyBlocks_def dest!: set_forRange)

lemma in_textureRegions: "(ry, rx) \<in> set (textureRegions w h) \<Longrightarrow> ry + 64 < h \<and> rx + 64 < w"
  by (auto simp: textureRegions_def dest!: set_forRange)

lemma tile_in_range:
  fixes k w h :: nat
  assumes "0 < k" "by + k < h" "bx + k < w"
  shows "(by + k - 1) * w + (bx + k - 1) < w * h"
proof -
  have "bx + k - 1 < w" using assms(3) by arith
  then have "(by + k - 1) * w + (bx + k - 1) < (by + k - 1) * w + w" by simp
  also have "\<dots> = (by + k) * w" using assms(1) by (cases k) (simp_all add: algebra_simps)
  also have "\<dots> \<le> h * w" using assms(2) by (intro mult_le_mono1) simp
  finally show ?thesis by (simp add: mult.commute)
qed

lemma foldl_add_const:
  assumes "\<And>s x. x \<in> set xs \<Longrightarrow> f s x = fadd s c"
  shows "foldl f a xs = iter_add (length xs) c a"
  using assms by (induction xs arbitrary: a) simp_all

lemma foldl_unchanged:
  assumes "\<And>s x. x \<in> set xs \<Longrightarrow> f s x = s"
  shows "foldl f a xs = a"
  using assms by (induction xs arbitrary: a) simp_all

lemma frequencyTotal_uniform:
  "frequencyTotal (replicate (w * h) L) w h =
     (if blockFires (replicate 64 L)
      then iter_add (length (frequencyBlocks w h)) (rnd (1 / 10)) (Num 0) else Num 0)"
proof -
  have step: "(case x of (by, bx) \<Rightarrow> frequencyStep (replicate (w * h) L) w by s bx) =
      (if blockFires (replicate 64 L) then fadd s (rnd (1 / 10)) else s)"
    if "x \<in> set (frequencyBlocks w h)" for s x
  proof -
    obtain "by" bx where x: "x = (by, bx)" by (cases x)
    from that have "by + 8 < h" "bx + 8 < w" using in_frequencyBlocks unfolding x by auto
    then have "getBlock (replicate (w * h) L) w by bx 8 = replicate (8 * 8) L"
      by (intro getBlock_uniform tile_in_range) simp_all
    then show ?thesis by (simp add: x frequencyStep_def)
  qed
  show ?thesis
  proof (cases "blockFires (replicate 64 L)")
    case True
    then show ?thesis
      unfolding frequencyTotal_blocks using step by (simp add: foldl_add_const)
  next
    case False
    then show ?thesis
      unfolding frequencyTotal_blocks using step by (simp add: foldl_unchanged)
  qed
qed

lemma rnd_0 [simp]: "rnd 0 = Num 0"
  by (simp add: rnd_def not_le)

lemma not_fires_same: "\<not> fgt (fabs (fsub X X)) (rnd (5 / 100))"
proof -
  have "nonneg (rnd (5 / 100))" by (rule rnd_nonneg) simp
  then have "\<not> flt (rnd (5 / 100)) (Num 0)" by (cases "rnd (5 / 100 :: rat)") simp_all
  then show ?thesis by (cases X) (simp_all add: fgt_def fsub_def)
qed

lemma boundaryFires_uniform: "\<not> boundaryFires (replicate n L) w by bx"
proof (cases "(by + 2) * w + (bx + 3) < n")
  case True
  have "elemAt (replicate n L) ((by + 2) * w + (bx + i)) = L" if "i < 4" for i
    using that True by (simp add: elemAt_def)
  moreover have "elemAt (replicate n L) (by * w + (bx + i)) = L" if "i < 4" for i
  proof -
    have "by * w + (bx + i) \<le> (by + 2) * w + (bx + 3)" using that by simp
    then show ?thesis using True by (simp add: elemAt_def)
  qed
  ultimately have "map (\<lambda>i. elemAt (replicate n L) (by * w + (bx + i))) [0 ..< 4] =
      map (\<lambda>i. elemAt (replicate n L) ((by + 2) * w + (bx + i))) [0 ..< 4]"
    by simp
  then show ?thesis
    unfolding boundaryFires_def Let_def by (simp only: not_fires_same not_False_eq_True)
next
  case False
  then have "length (replicate n L) \<le> (by + 2) * w + (bx + 3) \<or>
      length (replicate n L) \<le> by * w + (bx + 3)" by simp
  then show ?thesis by (rule boundary_out_of_range [rotated]) simp
qed

lemma artifactTotal_uniform: "artifactTotal (replicate n L) w h = Num 0"
proof -
  have "foldl (artifactStep (replicate n L) w by) s xs = s" for "by" s xs
    by (induction xs) (simp_all add: artifactStep_def boundaryFires_uniform)
  then have "foldl (\<lambda>score by. foldl (artifactStep (replicate n L) w by) score
      (forRange 8 (int w) 8)) s ys = s" for s ys
    by (induction ys) simp_all
  then show ?thesis by (simp add: artifactTotal_def)
qed

lemma calculateVariance_replicate:
  assumes "0 < n"
  shows "calculateVariance (replicate n v) =
    fdiv (iter_add n (fmul (fsub v (fdiv (iter_add (n - 1) v v) (Num (of_nat n))))
                           (fsub v (fdiv (iter_add (n - 1) v v) (Num (of_nat n))))) (Num 0))
         (Num (of_nat n))"
proof -
  obtain m where n: "n = Suc m" using assms by (cases n) auto
  have "foldl (\<lambda>sum val. fadd sum (fmul (fsub val mu) (fsub val mu))) a (replicate k v) =
      iter_add k (fmul (fsub v mu) (fsub v mu)) a" for mu a k
    by (induction k arbitrary: a) simp_all
  then show ?thesis
    unfolding calculateVariance_def Let_def n
    by (simp add: iter_add_foldl del: replicate.simps iter_add.simps)
qed

lemma foldl_texture_const:
  assumes "\<And>acc x. x \<in> set xs \<Longrightarrow> f acc x = (if B then fadd (fst acc) c else fst acc, snd acc @ [V])"
  shows "foldl f (a, l) xs =
    (if B then iter_add (length xs) c a else a, l @ replicate (length xs) V)"
  using assms
proof (induction xs arbitrary: a l)
  case Nil
  then show ?case by simp
next
  case (Cons x xs)
  have "f (a, l) x = (if B then fadd a c else a, l @ [V])" using Cons.prems [of x "(a, l)"] by simp
  moreover have "foldl f (a', l') xs =
      (if B then iter_add (length xs) c a' else a', l' @ replicate (length xs) V)" for a' l'
    using Cons by simp
  ultimately show ?case by (simp add: replicate_append_same)
qed

lemma textureScan_uniform:
  "textureScan (replicate (w * h) G) w h =
     (if regionSmooth (replicate 4096 G)
      then iter_add (length (textureRegions w h)) (rnd (1 / 10)) (Num 0) else Num 0,
      replicate (length (textureRegions w h)) (calculateVariance (replicate 4096 G)))"
proof -
  have step: "(case x of (ry, rx) \<Rightarrow> textureStep (replicate (w * h) G) w ry acc rx) =
      (if regionSmooth (replicate 4096 G) then fadd (fst acc) (rnd (1 / 10)) else fst acc,
       snd acc @ [calculateVariance (replicate 4096 G)])"
    if "x \<in> set (textureRegions w h)" for acc x
  proof -
    obtain ry rx where x: "x = (ry, rx)" by (cases x)
    from that have "ry + 64 < h" "rx + 64 < w" using in_textureRegions unfolding x by auto
    then have "getBlock (replicate (w * h) G) w ry rx 64 = replicate (64 * 64) G"
      by (intro getBlock_uniform tile_in_range) simp_all
    then show ?thesis by (simp add: x textureStep_def Let_def split: prod.splits)
  qed
  have "textureScan (replicate (w * h) G) w h =
      foldl (\<lambda>acc (ry, rx). textureStep (replicate (w * h) G) w ry acc rx) (Num 0, [])
        (textureRegions w h)"
    unfolding textureScan_def textureRegions_def by (rule foldl_nested)
  also have "\<dots> = (if regionSmooth (replicate 4096 G)
      then iter_add (length (textureRegions w h)) (rnd (1 / 10)) (Num 0) else Num 0,
      [] @ replicate (length (textureRegions w h)) (calculateVariance (replicate 4096 G)))"
    using step by (rule foldl_texture_const)
  finally show ?thesis by simp
qed

lemma length_textureRegions:
  "length (textureRegions w h) = nat ((int w - 1) div 64) * nat ((int h - 1) div 64)"
  by (simp add: textureRegions_def length_concat comp_def sum_list_triv length_forRange)

lemma fsub_self: "fsub (Num g) (Num g) = Num 0"
  by (simp add: fsub_def)

lemma countEdges_uniform: "countEdges (replicate k (Num g)) n = 0"
proof -
  have "\<not> fgt (Num 0) (rnd (1 / 10))"
  proof -
    have "nonneg (rnd (1 / 10))" by (rule rnd_nonneg) simp
    then show ?thesis by (cases "rnd (1 / 10 :: rat)") (simp_all add: fgt_def)
  qed
  then have "filter (\<lambda>i. let col = i mod n in 0 < col \<and> int col < int n - 1 \<and>
      fgt (fabs (fsub (replicate k (Num g) ! i) (replicate k (Num g) ! (i - 1)))) (rnd (1 / 10)))
      [1 ..< length (replicate k (Num g)) - 1] = []"
    by (auto simp: filter_empty_conv Let_def fsub_self)
  then show ?thesis unfolding countEdges_def by simp
qed

lemma foldl_corrStep_replicate:
  "foldl (corrStep mx my) (a, b, c) (replicate k (x, y)) =
     (iter_add k (fmul (fsub x mx) (fsub y my)) a,
      iter_add k (fmul (fsub x mx) (fsub x mx)) b,
      iter_add k (fmul (fsub y my) (fsub y my)) c)"
  by (induction k arbitrary: a b c) (simp_all add: corrStep_def Let_def)

lemma calculateCorrelation_replicate:
  assumes "0 < k"
  shows "calculateCorrelation (replicate k x) (replicate k y) =
    (let n = Num (of_nat k);
         dx = fsub x (fdiv (iter_add (k - 1) x x) n);
         dy = fsub y (fdiv (iter_add (k - 1) y y) n);
         denominator = fsqrt (fmul (iter_add k (fmul dx dx) (Num 0)) (iter_add k (fmul dy dy) (Num 0)))
     in if feq denominator (Num 0) then Num 0
        else fabs (fdiv (iter_add k (fmul dx dy) (Num 0)) denominator))"
proof -
  obtain m where k: "k = Suc m" using assms by (cases k) auto
  have z: "zip (replicate k x) (replicate k y) = replicate k (x, y)"
    by simp
  show ?thesis
    unfolding calculateCorrelation_def Let_def z foldl_corrStep_replicate
    by (simp add: k iter_add_foldl del: replicate.simps iter_add.simps)
qed

lemma iter_add_zero [simp]: "iter_add n (Num 0) (Num 0) = Num 0"
  by (induction n) simp_all

lemma lumaRGB_black: "lumaRGB (0, 0, 0) = Num 0"
  by (simp add: lumaRGB_def feval)

lemma grayRGB_black: "grayRGB (0, 0, 0) = Num 0"
  by (simp add: grayRGB_def feval)

lemma calculateVariance_zero: "calculateVariance (replicate n (Num 0)) = Num 0"
proof (cases n)
  case 0
  then show ?thesis by (simp add: calculateVariance_def)
next
  case (Suc m)
  then have "0 < n" by simp
  then show ?thesis
    by (simp add: calculateVariance_replicate fsub_self del: replicate.simps iter_add.simps)
qed

lemma calculateCorrelation_zero:
  "calculateCorrelation (replicate k (Num 0)) (replicate k (Num 0)) = Num 0"
proof (cases k)
  case 0
  then show ?thesis by (simp add: calculateCorrelation_def)
next
  case (Suc m)
  then have "0 < k" by simp
  then show ?thesis
    by (simp add: calculateCorrelation_replicate Let_def fsub_self feq_def
        del: replicate.simps iter_add.simps)
qed

lemma blockFires_zero: "blockFires (replicate n (Num 0))"
  by (simp add: blockFires_def calculateVariance_zero) (simp add: feval)

lemma regionSmooth_zero: "regionSmooth (replicate n (Num 0))"
  by (simp add: regionSmooth_def calculateVariance_zero countEdges_uniform) (simp add: feval)

lemma small_lt: "flt (Num 0) (rnd (1 / 50))" "flt (Num 0) (rnd (3 / 10))"
  "\<not> fgt (Num 0) (rnd (19 / 20))"
  by (simp_all add: feval)

text \<open>
  Buffers whose luma, grayscale and sampled channels are all 0: the all-black image
  and the untouched canvas.
\<close>

lemma analyzeFrequencyDomain_dark:
  assumes "lumaOf p = replicate (w * h) (Num 0)"
  shows "analyzeFrequencyDomain p w h =
     fmin (Num 1) (fdiv (iter_add (length (frequencyBlocks w h)) (rnd (1 / 10)) (Num 0)) (Num 10))"
  by (simp add: analyzeFrequencyDomain_def assms frequencyTotal_uniform blockFires_zero)

lemma detectCompressionArtifacts_flat:
  assumes "grayOf p = replicate n L"
  shows "detectCompressionArtifacts p w h = Num 0"
  by (simp add: detectCompressionArtifacts_def assms artifactTotal_uniform fmin_def)


lemma analyzeTextureConsistency_dark:
  assumes "grayOf p = replicate (w * h) (Num 0)"
  shows "analyzeTextureConsistency p w h =
     fmin (Num 1) (fadd (iter_add (length (textureRegions w h)) (rnd (1 / 10)) (Num 0)) (rnd (2 / 10)))"
  by (simp add: analyzeTextureConsistency_def assms textureScan_uniform
      regionSmooth_zero calculateVariance_zero small_lt)

lemma detectColorAnomalies_dark:
  assumes "\<And>c. c < 3 \<Longrightarrow> channelValues p c = replicate k (Num 0)"
  shows "detectColorAnomalies p = fmin (Num 1) (fadd (Num 0) (rnd (2 / 10)))"
  by (simp add: detectColorAnomalies_def assms Let_def calculateCorrelation_zero small_lt)

lemma analyze_dark:
  assumes "lumaOf p = replicate (w * h) (Num 0)" "grayOf p = replicate (w * h) (Num 0)"
    and "\<And>c. c < 3 \<Longrightarrow> channelValues p c = replicate k (Num 0)"
  shows "analyzePixelData p w h =
     buildResult
       (fmin (Num 1) (fdiv (iter_add (length (frequencyBlocks w h)) (rnd (1 / 10)) (Num 0)) (Num 10)))
       (Num 0)
       (fmin (Num 1) (fadd (iter_add (length (textureRegions w h)) (rnd (1 / 10)) (Num 0)) (rnd (2 / 10))))
       (fmin (Num 1) (fadd (Num 0) (rnd (2 / 10))))"
  unfolding analyzePixelData_def
  by (simp only: analyzeFrequencyDomain_dark [OF assms(1)]
      detectCompressionArtifacts_flat [OF assms(2)] analyzeTextureConsistency_dark [OF assms(2)]
      detectColorAnomalies_dark [of p k, OF assms(3)])

lemma channel_black [simp]: "channel c (0, 0, 0) = 0"
  by (simp add: channel_def)

lemma analyze_black:
  "analyzePixelData (uniformImage (0, 0, 0) (w * h)) w h =
     buildResult
       (fmin (Num 1) (fdiv (iter_add (length (frequencyBlocks w h)) (rnd (1 / 10)) (Num 0)) (Num 10)))
       (Num 0)
       (fmin (Num 1) (fadd (iter_add (length (textureRegions w h)) (rnd (1 / 10)) (Num 0)) (rnd (2 / 10))))
       (fmin (Num 1) (fadd (Num 0) (rnd (2 / 10))))"
  by (rule analyze_dark [where k = "min (w * h) 1000"])
     (simp_all add: lumaOf_uniform grayOf_uniform lumaRGB_black grayRGB_black
       channelValues_uniform)






lemma black_33_185:
  "buildResult
       (fmin (Num 1) (fdiv (iter_add (length (frequencyBlocks 33 185)) (rnd (1 / 10)) (Num 0)) (Num 10)))
       (Num 0)
       (fmin (Num 1) (fadd (iter_add (length (textureRegions 33 185)) (rnd (1 / 10)) (Num 0)) (rnd (2 / 10))))
       (fmin (Num 1) (fadd (Num 0) (rnd (2 / 10)))) =
     \<lparr> isFake = False, confidence = Num 40, riskLevel = medium,
       details = \<lparr> frequencyAnomaly = Num 92, compressionArtifacts = Num 0,
                   textureInconsistency = Num 20, colorAnomalies = Num 20 \<rparr> \<rparr>"
  by (simp add: length_frequencyBlocks length_textureRegions buildResult_def rawConfidence_def
      combinedScore_def classify_def Let_def iter_add_numeral feval
      del: iter_add_zero)

lemma black_16_16:
  "analyzeFrequencyDomain (uniformImage (0, 0, 0) (16 * 16)) 16 16 = rnd (1 / 100)"
proof -
  have "lumaOf (uniformImage (0, 0, 0) (16 * 16)) = replicate (16 * 16) (Num 0)"
    by (simp only: lumaOf_uniform lumaRGB_black)
  then show ?thesis
    unfolding analyzeFrequencyDomain_dark [OF \<open>lumaOf (uniformImage (0, 0, 0) (16 * 16)) = replicate (16 * 16) (Num 0)\<close>]
    by (simp add: length_frequencyBlocks iter_add_numeral feval del: iter_add_zero)
qed

text \<open>
  Claim C6 against the code. The loops run while \<open>by < height - 8\<close> and
  \<open>bx < width - 8\<close>, so for a width of \<open>8 a\<close> and a height of \<open>8 b\<close> they visit
  \<open>(a - 1) (b - 1)\<close> blocks, not \<open>a b\<close>: the last full row and the last full column of
  blocks are never sampled. A 16 by 16 image has one sampled block instead of four; when
  it is all black the score is 0.01, where four blocks would give 0.04.
\<close>

theorem frequency_blocks_multiple_of_8:
  "length (frequencyBlocks (8 * a) (8 * b)) = (a - 1) * (b - 1) \<and>
   length (frequencyBlocks 16 16) = 1 \<and>
   analyzeFrequencyDomain (uniformImage (0, 0, 0) (16 * 16)) 16 16 = rnd (1 / 100)"
proof -
  have "nat ((int (8 * n) - 1) div 8) = n - 1" for n
  proof (cases n)
    case 0
    then show ?thesis by simp
  next
    case (Suc m)
    then have "int (8 * n) - 1 = int m * 8 + 7" by simp
    then have "(int (8 * n) - 1) div 8 = int m" by simp
    then show ?thesis using Suc by simp
  qed
  then have "length (frequencyBlocks (8 * a) (8 * b)) = (a - 1) * (b - 1)"
    by (simp only: length_frequencyBlocks)
  moreover have "length (frequencyBlocks 16 16) = 1" by (simp add: length_frequencyBlocks)
  ultimately show ?thesis using black_16_16 by simp
qed

lemma frequencyTotal_none:
  assumes "\<And>by bx. (by, bx) \<in> set (frequencyBlocks w h) \<Longrightarrow> \<not> blockFires (getBlock luma w by bx 8)"
  shows "frequencyTotal luma w h = Num 0"
  unfolding frequencyTotal_blocks
  by (rule foldl_unchanged) (auto simp: frequencyStep_def assms)

lemma textureScan_blocks:
  "textureScan gray w h =
     foldl (\<lambda>acc (ry, rx). textureStep gray w ry acc rx) (Num 0, []) (textureRegions w h)"
  unfolding textureScan_def textureRegions_def by (rule foldl_nested)

lemma textureScan_none:
  assumes "\<And>ry rx. (ry, rx) \<in> set (textureRegions w h) \<Longrightarrow> \<not> regionSmooth (getBlock gray w ry rx 64)"
  shows "fst (textureScan gray w h) = Num 0"
proof -
  have "fst (foldl (\<lambda>acc (ry, rx). textureStep gray w ry acc rx) a xs) = fst a"
    if "set xs \<subseteq> set (textureRegions w h)" for a xs
    using that
  proof (induction xs arbitrary: a)
    case Nil
    then show ?case by simp
  next
    case (Cons x xs)
    obtain ry rx where x: "x = (ry, rx)" by (cases x)
    have "\<not> regionSmooth (getBlock gray w ry rx 64)" using Cons.prems assms unfolding x by simp
    then have "fst (textureStep gray w ry a rx) = fst a"
      by (simp add: textureStep_def Let_def split: prod.splits)
    then show ?case using Cons by (simp add: x)
  qed
  then show ?thesis unfolding textureScan_blocks by simp
qed

lemma quantize_dyadics:
  "quantize (1 / 4) = 1 / 4" "quantize (13 / 256) = 13 / 256" "quantize (77 / 256) = 77 / 256"
  "quantize (5 / 64) = 5 / 64" "quantize (97 / 256) = 97 / 256" "quantize (2425 / 64) = 2425 / 64"
  using quantize_fixed [of 1 "- 2"] quantize_fixed [of 13 "- 8"] quantize_fixed [of 77 "- 8"]
    quantize_fixed [of 5 "- 6"] quantize_fixed [of 97 "- 8"] quantize_fixed [of 2425 "- 6"]
  by (simp_all add: blen_simps pow2_def)

lemma rnd_upto:
  assumes "quantize hi = hi" "hi \<le> 100" "0 \<le> q" "q \<le> hi"
  shows "inRange 0 hi (rnd q)"
  using assms pow2_1024_gt(2) by (intro rnd_between) simp_all

lemma fmul_upto:
  assumes "inRange 0 a x" "inRange 0 b y" "a * b \<le> hi" "quantize hi = hi" "hi \<le> 100"
  shows "inRange 0 hi (fmul x y)"
proof -
  from assms(1) obtain p where p: "x = Num p" "0 \<le> p" "p \<le> a" by (rule inRange_cases)
  from assms(2) obtain q where q: "y = Num q" "0 \<le> q" "q \<le> b" by (rule inRange_cases)
  have "p * q \<le> a * b" using p q by (intro mult_mono) simp_all
  then show ?thesis unfolding p q fmul.simps
    using p q assms by (intro rnd_upto) simp_all
qed

lemma fadd_upto:
  assumes "inRange 0 a x" "inRange 0 b y" "a + b \<le> hi" "quantize hi = hi" "hi \<le> 100"
  shows "inRange 0 hi (fadd x y)"
proof -
  from assms(1) obtain p where p: "x = Num p" "0 \<le> p" "p \<le> a" by (rule inRange_cases)
  from assms(2) obtain q where q: "y = Num q" "0 \<le> q" "q \<le> b" by (rule inRange_cases)
  show ?thesis unfolding p q fadd.simps
    using p q assms by (intro rnd_upto) simp_all
qed

lemma inRange_weaken: "inRange lo a x \<Longrightarrow> a \<le> b \<Longrightarrow> inRange lo b x"
  by (cases x) simp_all

lemma weights_upto:
  "inRange 0 1 (rnd (35 / 100))" "inRange 0 (1 / 4) (rnd (25 / 100))"
  "inRange 0 (5 / 32) (rnd (15 / 100))"
  by (simp_all add: feval) (simp_all add: fl_def pow2_def)

lemma color_values:
  "fmin (Num 1) (Num 0) = Num 0"
  "inRange 0 (1 / 2) (fmin (Num 1) (fadd (Num 0) (rnd (3 / 10))))"
  "inRange 0 (13 / 64) (fmin (Num 1) (fadd (Num 0) (rnd (2 / 10))))"
  "inRange 0 (1 / 2) (fmin (Num 1) (fadd (fadd (Num 0) (rnd (3 / 10))) (rnd (2 / 10))))"
  by (simp_all add: feval) (simp_all add: fl_def pow2_def)

lemma detectColorAnomalies_upto: "inRange 0 (1 / 2) (detectColorAnomalies p)"
  unfolding detectColorAnomalies_def Let_def
  using color_values inRange_weaken [OF color_values(3), of "1 / 2"]
  by (auto simp del: fadd.simps)

lemma low_risk_bound:
  assumes c: "inRange 0 1 c" and t: "inRange 0 (13 / 64) t" and k: "inRange 0 (1 / 2) col"
  shows "riskLevel (buildResult (Num 0) c t col) = low"
proof -
  have f0: "fmul (Num 0) (rnd (35 / 100)) = Num 0"
    using weights_upto(1) by (cases "rnd (35 / 100 :: rat)") simp_all
  have 1: "inRange 0 (1 / 4) (fmul c (rnd (25 / 100)))"
    by (rule fmul_upto [OF c weights_upto(2)]) (simp_all add: quantize_dyadics)
  have 2: "inRange 0 (1 / 4) (fadd (Num 0) (fmul c (rnd (25 / 100))))"
    by (rule fadd_upto [OF _ 1, of 0]) (simp_all add: quantize_dyadics)
  have 3: "inRange 0 (13 / 256) (fmul t (rnd (25 / 100)))"
    by (rule fmul_upto [OF t weights_upto(2)]) (simp_all add: quantize_dyadics)
  have 4: "inRange 0 (77 / 256) (fadd (fadd (Num 0) (fmul c (rnd (25 / 100)))) (fmul t (rnd (25 / 100))))"
    by (rule fadd_upto [OF 2 3]) (simp_all add: quantize_dyadics)
  have 5: "inRange 0 (5 / 64) (fmul col (rnd (15 / 100)))"
    by (rule fmul_upto [OF k weights_upto(3)]) (simp_all add: quantize_dyadics)
  have 6: "inRange 0 (97 / 256) (combinedScore (Num 0) c t col)"
    unfolding combinedScore_def f0
    by (rule fadd_upto [OF 4 5]) (simp_all add: quantize_dyadics)
  have 7: "inRange 0 (2425 / 64) (fmul (combinedScore (Num 0) c t col) (Num 100))"
    by (rule fmul_upto [OF 6, of 100]) (simp_all add: quantize_dyadics)
  then obtain q where q: "fmul (combinedScore (Num 0) c t col) (Num 100) = Num q" "0 \<le> q" "q \<le> 2425 / 64"
    by (rule inRange_cases)
  have "rawConfidence (Num 0) c t col = Num q"
    using q by (simp add: rawConfidence_def fmax_def fmin_def)
  then show ?thesis using q by (simp add: buildResult_def Let_def classify_def fgt_def)
qed









text \<open>
  Claim C3 against the code. An all-black image of 33 by 185 pixels: the confidence
  before rounding is just above 40, so the risk level is medium, while the confidence
  field of the result is 40.
\<close>

theorem confidence_40_medium:
  "analyzeImageForDeepfake True (HTMLImageElement 33 185 (uniformImage (0, 0, 0) (33 * 185))) =
     Inr \<lparr> isFake = False, confidence = Num 40, riskLevel = medium,
       details = \<lparr> frequencyAnomaly = Num 92, compressionArtifacts = Num 0,
                   textureInconsistency = Num 20, colorAnomalies = Num 20 \<rparr> \<rparr>"
proof -
  have "analyzeImageForDeepfake True (HTMLImageElement 33 185 (uniformImage (0, 0, 0) (33 * 185))) =
      Inr (analyzePixelData (uniformImage (0, 0, 0) (33 * 185)) 33 185)"
    by (simp add: analyzeImageForDeepfake_def)
  then show ?thesis by (simp only: analyze_black black_33_185)
qed

declare isqrt.simps [simp del]

















lemma textureRegions_small: "w \<le> 64 \<or> h \<le> 64 \<Longrightarrow> textureRegions w h = []"
  using length_textureRegions [of w h] by auto


lemma analyzeTextureConsistency_small:
  assumes "w \<le> 64 \<or> h \<le> 64"
  shows "analyzeTextureConsistency p w h = rnd (2 / 10)"
  unfolding analyzeTextureConsistency_def textureScan_blocks textureRegions_small [OF assms]
  by (simp add: calculateVariance_def) (simp add: feval)





















lemma lumaRGB_white: "lumaRGB (255, 255, 255) = fl 9007199254740991 (- 53)"
  by (simp add: lumaRGB_def feval)

lemma tone_values: "tone True = fl 9007199254740991 (- 53)" "tone False = fl 0 0"
  by (simp_all add: tone_def lumaRGB_white lumaRGB_black Num_fl)

lemma tone_close: "flt (fabs (fsub (tone a) (tone b))) (rnd (5 / 100)) \<longleftrightarrow> a = b"
  by (cases a; cases b) (simp_all add: tone_values feval)

lemma periodMatches_tone:
  "periodMatches (map tone bs) p = length (filter (\<lambda>i. bs ! i = bs ! (i - p)) [p ..< length bs])"
proof -
  have "flt (fabs (fsub (map tone bs ! i) (map tone bs ! (i - p)))) (rnd (5 / 100)) \<longleftrightarrow>
      bs ! i = bs ! (i - p)" if "i \<in> set [p ..< length bs]" for i
  proof -
    have "i < length bs" "i - p < length bs" using that by auto
    then show ?thesis by (simp only: nth_map tone_close)
  qed
  then have "filter (\<lambda>i. flt (fabs (fsub (map tone bs ! i) (map tone bs ! (i - p)))) (rnd (5 / 100)))
      [p ..< length bs] = filter (\<lambda>i. bs ! i = bs ! (i - p)) [p ..< length bs]"
    by (rule filter_cong [OF refl])
  then show ?thesis by (simp only: periodMatches_def length_map)
qed

lemma length_noiseBlock: "length noiseBlock = 64"
  by (simp add: noiseBlock_def)

lemma noise_periodMatches:
  "periodMatches (map tone noiseBlock) (Suc 0) = 31"
  "periodMatches (map tone noiseBlock) 2 = 33"
  "periodMatches (map tone noiseBlock) 3 = 32"
  "periodMatches (map tone noiseBlock) 4 = 33"
  "periodMatches (map tone noiseBlock) 5 = 31"
  "periodMatches (map tone noiseBlock) 6 = 27"
  "periodMatches (map tone noiseBlock) 7 = 32"
  "periodMatches (map tone noiseBlock) 8 = 24"
  "periodMatches (map tone noiseBlock) 9 = 28"
  "periodMatches (map tone noiseBlock) 10 = 25"
  "periodMatches (map tone noiseBlock) 11 = 25"
  "periodMatches (map tone noiseBlock) 12 = 28"
  "periodMatches (map tone noiseBlock) 13 = 26"
  "periodMatches (map tone noiseBlock) 14 = 23"
  "periodMatches (map tone noiseBlock) 15 = 27"
  "periodMatches (map tone noiseBlock) 16 = 26"
  "periodMatches (map tone noiseBlock) 17 = 24"
  "periodMatches (map tone noiseBlock) 18 = 24"
  "periodMatches (map tone noiseBlock) 19 = 22"
  "periodMatches (map tone noiseBlock) 20 = 24"
  "periodMatches (map tone noiseBlock) 21 = 20"
  "periodMatches (map tone noiseBlock) 22 = 21"
  "periodMatches (map tone noiseBlock) 23 = 17"
  "periodMatches (map tone noiseBlock) 24 = 20"
  "periodMatches (map tone noiseBlock) 25 = 21"
  "periodMatches (map tone noiseBlock) 26 = 17"
  "periodMatches (map tone noiseBlock) 27 = 14"
  "periodMatches (map tone noiseBlock) 28 = 18"
  "periodMatches (map tone noiseBlock) 29 = 13"
  "periodMatches (map tone noiseBlock) 30 = 15"
  "periodMatches (map tone noiseBlock) 31 = 16"
  "periodMatches (map tone noiseBlock) 32 = 18"
  unfolding periodMatches_tone by code_simp+

lemma upt_0_numeral: "[0 ..< numeral n] = 0 # [Suc 0 ..< numeral n]"
  by (rule upt_conv_Cons) simp

lemma upt_1_numeral:
  "[Suc 0 ..< numeral n] = (if Suc 0 < numeral n then Suc 0 # [2 ..< numeral n] else [])"
proof (cases "Suc 0 < numeral n")
  case True
  then have "[Suc 0 ..< numeral n] = Suc 0 # [Suc (Suc 0) ..< numeral n]" by (rule upt_conv_Cons)
  moreover have "Suc (Suc 0) = 2" by simp
  ultimately show ?thesis using True by (simp only: if_True)
next
  case False
  then have "[Suc 0 ..< numeral n] = []" by (simp only: upt_eq_Nil_conv not_less) simp
  then show ?thesis using False by (simp only: if_False)
qed

lemmas upt_eval = upt_0_numeral upt_1_numeral upt_rec_numeral

lemma frequencyBlocks_9: "frequencyBlocks 9 9 = [(0, 0)]"
  by (simp add: frequencyBlocks_def forRange_eq)

lemma textureRegions_9: "textureRegions 9 9 = []"
  by (simp add: textureRegions_def forRange_eq)

lemma length_noiseBits: "length noiseBits = 81"
  by (simp add: noiseBits_def)

lemma getBlock_map:
  assumes "0 < k" "(by + k - 1) * w + (bx + k - 1) < n"
  shows "getBlock (map g [0 ..< n]) w by bx k =
    concat (map (\<lambda>y. map (\<lambda>x. g ((by + y) * w + (bx + x))) [0 ..< k]) [0 ..< k])"
proof -
  have "elemAt (map g [0 ..< n]) ((by + y) * w + (bx + x)) = g ((by + y) * w + (bx + x))"
    if "y < k" "x < k" for x y
  proof -
    have "(by + y) * w \<le> (by + k - 1) * w" using that by (intro mult_le_mono1) simp
    moreover have "bx + x \<le> bx + k - 1" using that by simp
    ultimately have "(by + y) * w + (bx + x) < n" using assms(2) by linarith
    then show ?thesis by (simp add: elemAt_map_upt)
  qed
  then have "map (\<lambda>x. elemAt (map g [0 ..< n]) ((by + y) * w + (bx + x))) [0 ..< k] =
      map (\<lambda>x. g ((by + y) * w + (bx + x))) [0 ..< k]" if "y < k" for y
    using that by simp
  then have "map (\<lambda>y. map (\<lambda>x. elemAt (map g [0 ..< n]) ((by + y) * w + (bx + x))) [0 ..< k]) [0 ..< k] =
      map (\<lambda>y. map (\<lambda>x. g ((by + y) * w + (bx + x))) [0 ..< k]) [0 ..< k]"
    by simp
  then show ?thesis by (simp only: getBlock_def)
qed

lemma noise_periodicity: "checkPeriodicity (map tone noiseBlock) = Num 0"
  by (simp add: checkPeriodicity_def length_noiseBlock upt_eval noise_periodMatches feval)

lemma noise_mean:
  "fdiv (foldl fadd (hd (map tone noiseBlock)) (tl (map tone noiseBlock)))
     (Num (of_nat (length (map tone noiseBlock)))) = fl 7881299347898367 (- 54)"
  by (simp add: noiseBlock_def tone_values feval)

lemma noise_variance: "\<not> flt (calculateVariance (map tone noiseBlock)) (rnd (1 / 100))"
proof -
  have "map tone noiseBlock \<noteq> []" by (simp add: noiseBlock_def)
  then have "calculateVariance (map tone noiseBlock) =
      fdiv (foldl (\<lambda>sum val. fadd sum (fmul (fsub val (fl 7881299347898367 (- 54))) (fsub val (fl 7881299347898367 (- 54)))))
        (Num 0) (map tone noiseBlock)) (Num (of_nat (length (map tone noiseBlock))))"
    by (simp only: calculateVariance_def Let_def noise_mean if_False)
  then show ?thesis by (simp add: noiseBlock_def tone_values feval)
qed

lemma noise_block: "getBlock (lumaOf (bwImage noiseBits)) 9 0 0 8 = map tone noiseBlock"
proof -
  have "getBlock (lumaOf (bwImage noiseBits)) 9 0 0 8 =
      concat (map (\<lambda>y. map (\<lambda>x. lumaRGB (if noiseBits ! ((0 + y) * 9 + (0 + x))
        then (255, 255, 255) else (0, 0, 0))) [0 ..< 8]) [0 ..< 8])"
    unfolding bwImage_def lumaOf_pixelsOf length_noiseBits
    by (rule getBlock_map) simp_all
  also have "\<dots> = map tone (concat (map (\<lambda>y. map (\<lambda>x. noiseBits ! ((0 + y) * 9 + (0 + x)))
      [0 ..< 8]) [0 ..< 8]))"
    by (simp only: map_concat map_map comp_def tone_def)
  also have "concat (map (\<lambda>y. map (\<lambda>x. noiseBits ! ((0 + y) * 9 + (0 + x))) [0 ..< 8]) [0 ..< 8]) =
      noiseBlock"
    by code_simp
  finally show ?thesis .
qed

lemma noise_block_quiet: "\<not> blockFires (getBlock (lumaOf (bwImage noiseBits)) 9 0 0 8)"
  unfolding noise_block blockFires_def
  using noise_variance by (simp add: noise_periodicity) (simp add: feval)

lemma analyzeTextureConsistency_quiet:
  assumes "\<And>ry rx. (ry, rx) \<in> set (textureRegions w h) \<Longrightarrow>
    \<not> regionSmooth (getBlock (grayOf p) w ry rx 64)"
  shows "inRange 0 (13 / 64) (analyzeTextureConsistency p w h)"
proof -
  obtain s rs where sr: "textureScan (grayOf p) w h = (s, rs)"
    by (cases "textureScan (grayOf p) w h")
  have s: "s = Num 0" using textureScan_none [of w h "grayOf p", OF assms] sr by simp
  have "inRange 0 (13 / 64) (fmin (Num 1) (Num 0))" by (simp only: color_values(1)) simp
  then show ?thesis
    unfolding analyzeTextureConsistency_def sr s using color_values(3)
    by (simp only: prod.case split: if_split) blast
qed

text \<open>
  Claim C8. A block that the frequency analyzer samples adds to the score only if its
  variance is below 0.01 or its periodicity score is above 0.7. If neither holds for any
  sampled 8 by 8 luma block, the frequency score is exactly 0, and so is the detail
  reported for it. In the noise scenario no sampled 64 by 64 region is smooth either
  (smooth means a variance below 0.01 together with fewer than 32 edges); then the
  texture score is at most 0.2, the confidence stays below 40 whatever the compression
  and colour scores are, and the risk level is low.
\<close>

theorem noise_frequency_zero:
  assumes "\<forall>(by, bx)\<in>set (frequencyBlocks w h).
     \<not> flt (calculateVariance (getBlock (lumaOf p) w by bx 8)) (rnd (1 / 100)) \<and>
     \<not> fgt (checkPeriodicity (getBlock (lumaOf p) w by bx 8)) (rnd (7 / 10))"
  shows "analyzeFrequencyDomain p w h = Num 0 \<and>
     frequencyAnomaly (details (analyzePixelData p w h)) = Num 0 \<and>
     ((\<forall>(ry, rx)\<in>set (textureRegions w h). \<not> regionSmooth (getBlock (grayOf p) w ry rx 64)) \<longrightarrow>
        riskLevel (analyzePixelData p w h) = low)"
proof -
  have "frequencyTotal (lumaOf p) w h = Num 0"
    using assms by (intro frequencyTotal_none) (auto simp: blockFires_def)
  then have f: "analyzeFrequencyDomain p w h = Num 0"
    by (simp add: analyzeFrequencyDomain_def feval)
  have d: "frequencyAnomaly (details (analyzePixelData p w h)) = Num 0"
    by (simp add: analyzePixelData_def buildResult_def Let_def f feval)
  have "riskLevel (analyzePixelData p w h) = low"
    if "\<forall>(ry, rx)\<in>set (textureRegions w h). \<not> regionSmooth (getBlock (grayOf p) w ry rx 64)"
  proof -
    have "inRange 0 (13 / 64) (analyzeTextureConsistency p w h)"
      using that by (intro analyzeTextureConsistency_quiet) auto
    then show ?thesis
      unfolding analyzePixelData_def f
      by (intro low_risk_bound detectCompressionArtifacts_unit detectColorAnomalies_upto)
  qed
  with f d show ?thesis by blast
qed

theorem noise_frequency_zero_witness:
  "analyzeFrequencyDomain (bwImage noiseBits) 9 9 = Num 0 \<and>
   riskLevel (analyzePixelData (bwImage noiseBits) 9 9) = low"
  using noise_frequency_zero [of 9 9 "bwImage noiseBits"] noise_block_quiet
  by (simp add: frequencyBlocks_9 textureRegions_9 blockFires_def)

lemma lumaOf_grid: "lumaOf gridImage = map (\<lambda>i. tone (gridWhite i)) [0 ..< 4096]"
  by (simp add: gridImage_def lumaOf_pixelsOf tone_def)

lemma grayOf_grid: "grayOf gridImage = map (\<lambda>i. grayTone (gridWhite i)) [0 ..< 4096]"
  by (simp add: gridImage_def grayOf_pixelsOf grayTone_def)

lemma grid_block:
  assumes "(by, bx) \<in> set (frequencyBlocks 64 64)"
  shows "getBlock (lumaOf gridImage) 64 by bx 8 = map tone (gridBlock by bx)"
proof -
  have r: "by + 8 < 64" "bx + 8 < 64" using in_frequencyBlocks [OF assms] by simp_all
  have "getBlock (map (\<lambda>i. tone (gridWhite i)) [0 ..< 4096]) 64 by bx 8 =
      concat (map (\<lambda>y. map (\<lambda>x. tone (gridWhite ((by + y) * 64 + (bx + x)))) [0 ..< 8]) [0 ..< 8])"
    using r by (intro getBlock_map) simp_all
  also have "\<dots> = map tone (gridBlock by bx)"
    by (simp only: gridBlock_def map_concat map_map comp_def)
  finally show ?thesis unfolding lumaOf_grid .
qed

lemma replicate_numeral_unfold: "replicate (numeral k) x = x # replicate (pred_numeral k) x"
  by (simp add: numeral_eq_Suc)

lemma gridWhite_at:
  assumes "x < 64"
  shows "gridWhite (y * 64 + x) = (16 \<le> y \<and> y mod 8 = 0 \<and> 8 \<le> x \<and> x mod 8 = 0)"
  using assms by (simp add: gridWhite_def)

lemma forRange_0_56: "forRange 0 56 8 = [0, 8, 16, 24, 32, 40, 48]"
  by code_simp

lemma forRange_8_64: "forRange 8 64 8 = [8, 16, 24, 32, 40, 48, 56]"
  by code_simp

lemma grid_blocks_aligned:
  assumes "(by, bx) \<in> set (frequencyBlocks 64 64)"
  shows "by mod 8 = 0 \<and> bx mod 8 = 0 \<and> bx + 8 \<le> 64"
  using assms by (auto simp: frequencyBlocks_def forRange_0_56)

lemma gridBlock_shape:
  assumes "by mod 8 = 0" "bx mod 8 = 0" "bx + 8 \<le> 64"
  shows "gridBlock by bx = (if 16 \<le> by \<and> 8 \<le> bx then spikeBlock else replicate 64 False)"
proof -
  have cell: "gridWhite ((by + y) * 64 + (bx + x)) = (16 \<le> by \<and> 8 \<le> bx \<and> y = 0 \<and> x = 0)"
    if "y < 8" "x < 8" for y x
  proof -
    have "bx + x < 64" using assms(3) that by simp
    then have w: "gridWhite ((by + y) * 64 + (bx + x)) =
        (16 \<le> by + y \<and> (by + y) mod 8 = 0 \<and> 8 \<le> bx + x \<and> (bx + x) mod 8 = 0)"
      by (rule gridWhite_at)
    have "(by + y) mod 8 = 0 \<longleftrightarrow> y = 0" "(bx + x) mod 8 = 0 \<longleftrightarrow> x = 0"
      using assms(1,2) that by presburger+
    then show ?thesis unfolding w by auto
  qed
  have "map (\<lambda>y. map (\<lambda>x. gridWhite ((by + y) * 64 + (bx + x))) [0 ..< 8]) [0 ..< 8] =
      map (\<lambda>y. map (\<lambda>x. 16 \<le> by \<and> 8 \<le> bx \<and> y = 0 \<and> x = 0) [0 ..< 8]) [0 ..< 8]"
  proof (rule map_cong [OF refl])
    fix y :: nat
    assume "y \<in> set [0 ..< 8]"
    then have y: "y < 8" by simp
    show "map (\<lambda>x. gridWhite ((by + y) * 64 + (bx + x))) [0 ..< 8] =
        map (\<lambda>x. 16 \<le> by \<and> 8 \<le> bx \<and> y = 0 \<and> x = 0) [0 ..< 8]"
    proof (rule map_cong [OF refl])
      fix x :: nat
      assume "x \<in> set [0 ..< 8]"
      then have "x < 8" by simp
      with y show "gridWhite ((by + y) * 64 + (bx + x)) = (16 \<le> by \<and> 8 \<le> bx \<and> y = 0 \<and> x = 0)"
        by (rule cell)
    qed
  qed
  then have "gridBlock by bx =
      concat (map (\<lambda>y. map (\<lambda>x. 16 \<le> by \<and> 8 \<le> bx \<and> y = 0 \<and> x = 0) [0 ..< 8]) [0 ..< 8])"
    by (simp only: gridBlock_def)
  then show ?thesis
    by (simp add: upt_eval spikeBlock_def replicate_numeral_unfold)
qed

lemma length_spikeBlock: "length spikeBlock = 64"
  by (simp add: spikeBlock_def)

lemma spike_periodMatches:
  "periodMatches (map tone spikeBlock) (Suc 0) = 62"
  "periodMatches (map tone spikeBlock) 2 = 61"
  "periodMatches (map tone spikeBlock) 3 = 60"
  "periodMatches (map tone spikeBlock) 4 = 59"
  "periodMatches (map tone spikeBlock) 5 = 58"
  "periodMatches (map tone spikeBlock) 6 = 57"
  "periodMatches (map tone spikeBlock) 7 = 56"
  "periodMatches (map tone spikeBlock) 8 = 55"
  "periodMatches (map tone spikeBlock) 9 = 54"
  "periodMatches (map tone spikeBlock) 10 = 53"
  "periodMatches (map tone spikeBlock) 11 = 52"
  "periodMatches (map tone spikeBlock) 12 = 51"
  "periodMatches (map tone spikeBlock) 13 = 50"
  "periodMatches (map tone spikeBlock) 14 = 49"
  "periodMatches (map tone spikeBlock) 15 = 48"
  "periodMatches (map tone spikeBlock) 16 = 47"
  "periodMatches (map tone spikeBlock) 17 = 46"
  "periodMatches (map tone spikeBlock) 18 = 45"
  "periodMatches (map tone spikeBlock) 19 = 44"
  "periodMatches (map tone spikeBlock) 20 = 43"
  "periodMatches (map tone spikeBlock) 21 = 42"
  "periodMatches (map tone spikeBlock) 22 = 41"
  "periodMatches (map tone spikeBlock) 23 = 40"
  "periodMatches (map tone spikeBlock) 24 = 39"
  "periodMatches (map tone spikeBlock) 25 = 38"
  "periodMatches (map tone spikeBlock) 26 = 37"
  "periodMatches (map tone spikeBlock) 27 = 36"
  "periodMatches (map tone spikeBlock) 28 = 35"
  "periodMatches (map tone spikeBlock) 29 = 34"
  "periodMatches (map tone spikeBlock) 30 = 33"
  "periodMatches (map tone spikeBlock) 31 = 32"
  "periodMatches (map tone spikeBlock) 32 = 31"
  unfolding periodMatches_tone by code_simp+

lemma spike_periodicity: "checkPeriodicity (map tone spikeBlock) = rnd (9 / 10)"
  by (simp add: checkPeriodicity_def length_spikeBlock upt_eval spike_periodMatches feval)

lemma spike_fires: "blockFires (map tone spikeBlock)"
  unfolding blockFires_def by (simp add: spike_periodicity) (simp add: feval)

lemma dark_fires: "blockFires (map tone (replicate 64 False))"
  using blockFires_zero [of 64] by (simp add: tone_values Num_fl)

lemma frequencyTotal_all:
  assumes "\<And>by bx. (by, bx) \<in> set (frequencyBlocks w h) \<Longrightarrow> blockFires (getBlock luma w by bx 8)"
  shows "frequencyTotal luma w h = iter_add (length (frequencyBlocks w h)) (rnd (1 / 10)) (Num 0)"
  unfolding frequencyTotal_blocks
  by (rule foldl_add_const) (auto simp: frequencyStep_def assms)

lemma grid_frequency:
  "analyzeFrequencyDomain gridImage 64 64 =
     fmin (Num 1) (fdiv (iter_add 49 (rnd (1 / 10)) (Num 0)) (Num 10))"
proof -
  have "blockFires (getBlock (lumaOf gridImage) 64 by bx 8)"
    if m: "(by, bx) \<in> set (frequencyBlocks 64 64)" for "by" bx
  proof -
    have "gridBlock by bx = replicate 64 False \<or> gridBlock by bx = spikeBlock"
      using gridBlock_shape [of "by" bx] grid_blocks_aligned [OF m] by auto
    then show ?thesis unfolding grid_block [OF m] using spike_fires dark_fires by auto
  qed
  then have "frequencyTotal (lumaOf gridImage) 64 64 =
      iter_add (length (frequencyBlocks 64 64)) (rnd (1 / 10)) (Num 0)"
    by (rule frequencyTotal_all)
  moreover have "length (frequencyBlocks 64 64) = 49" by (simp add: length_frequencyBlocks)
  ultimately show ?thesis by (simp only: analyzeFrequencyDomain_def)
qed

lemma artifactTotal_boundaries:
  "artifactTotal gray w h =
     foldl (\<lambda>s (by, bx). artifactStep gray w by s bx) (Num 0) (artifactBoundaries w h)"
  unfolding artifactTotal_def artifactBoundaries_def by (rule foldl_nested)

lemma foldl_add_filter:
  "foldl (\<lambda>s x. if P x then fadd s c else s) a xs = iter_add (length (filter P xs)) c a"
  by (induction xs arbitrary: a) simp_all

lemma artifactTotal_count:
  "artifactTotal gray w h =
     iter_add (length (filter (\<lambda>(by, bx). boundaryFires gray w by bx) (artifactBoundaries w h)))
       (rnd (5 / 100)) (Num 0)"
proof -
  have "(\<lambda>s (by, bx). artifactStep gray w by s bx) =
      (\<lambda>s x. if (\<lambda>(by, bx). boundaryFires gray w by bx) x then fadd s (rnd (5 / 100)) else s)"
    by (auto simp: fun_eq_iff artifactStep_def)
  then show ?thesis unfolding artifactTotal_boundaries by (simp only: foldl_add_filter)
qed

lemma grid_boundaries_range:
  assumes "(by, bx) \<in> set (artifactBoundaries 64 64)"
  shows "by \<le> 56 \<and> bx \<le> 56 \<and> by mod 8 = 0 \<and> bx mod 8 = 0 \<and> 8 \<le> bx"
  using assms by (auto simp: artifactBoundaries_def forRange_8_64)

lemma gridWindow_shape:
  assumes "bx \<le> 56" "bx mod 8 = 0" "8 \<le> bx"
  shows "gridWindow by bx = [16 \<le> by \<and> by mod 8 = 0, False, False, False]"
proof -
  have "gridWhite (by * 64 + (bx + i)) = (16 \<le> by \<and> by mod 8 = 0 \<and> i = 0)" if "i < 4" for i
  proof -
    have "bx + i < 64" using assms(1) that by simp
    then have w: "gridWhite (by * 64 + (bx + i)) =
        (16 \<le> by \<and> by mod 8 = 0 \<and> 8 \<le> bx + i \<and> (bx + i) mod 8 = 0)"
      by (rule gridWhite_at)
    have "(bx + i) mod 8 = 0 \<longleftrightarrow> i = 0" using assms(2) that by presburger
    then show ?thesis unfolding w using assms(3) by auto
  qed
  then have "map (\<lambda>i. gridWhite (by * 64 + (bx + i))) [0 ..< 4] =
      map (\<lambda>i. 16 \<le> by \<and> by mod 8 = 0 \<and> i = 0) [0 ..< 4]"
    by (intro map_cong [OF refl]) simp
  then have "gridWindow by bx = map (\<lambda>i. 16 \<le> by \<and> by mod 8 = 0 \<and> i = 0) [0 ..< 4]"
    by (simp only: gridWindow_def)
  then show ?thesis by (simp add: upt_eval)
qed

lemma grid_window:
  assumes "by \<le> 58" "bx \<le> 56"
  shows "map (\<lambda>i. elemAt (grayOf gridImage) (by * 64 + (bx + i))) [0 ..< 4] =
    map grayTone (gridWindow by bx)"
proof -
  have "elemAt (grayOf gridImage) (by * 64 + (bx + i)) = grayTone (gridWhite (by * 64 + (bx + i)))"
    if "i \<in> set [0 ..< 4]" for i
  proof -
    have "by * 64 + (bx + i) < 4096" using assms that by simp
    then show ?thesis by (simp add: grayOf_grid elemAt_map_upt)
  qed
  then have "map (\<lambda>i. elemAt (grayOf gridImage) (by * 64 + (bx + i))) [0 ..< 4] =
      map (\<lambda>i. grayTone (gridWhite (by * 64 + (bx + i)))) [0 ..< 4]"
    by (rule map_cong [OF refl])
  then show ?thesis by (simp only: gridWindow_def map_map comp_def)
qed

lemma grid_boundary:
  assumes "(by, bx) \<in> set (artifactBoundaries 64 64)"
  shows "boundaryFires (grayOf gridImage) 64 by bx =
    windowFires (gridWindow by bx) (gridWindow (by + 2) bx)"
proof -
  have r: "by \<le> 56" "bx \<le> 56" using grid_boundaries_range [OF assms] by simp_all
  then have "by \<le> 58" "by + 2 \<le> 58" by simp_all
  then show ?thesis
    unfolding boundaryFires_def Let_def windowFires_def
    by (simp only: grid_window r)
qed

lemma grayRGB_white: "grayRGB (255, 255, 255) = fl 1 0"
  by (simp add: grayRGB_def feval)

lemma grayTone_values: "grayTone True = fl 1 0" "grayTone False = fl 0 0"
  by (simp_all add: grayTone_def grayRGB_white grayRGB_black Num_fl)

lemma window_values:
  "windowFires [True, False, False, False] [False, False, False, False]"
  "\<not> windowFires [False, False, False, False] [False, False, False, False]"
  by (simp_all add: windowFires_def calculateVariance_def grayTone_values Let_def feval)

lemma grid_boundary_fires:
  assumes "(by, bx) \<in> set (artifactBoundaries 64 64)"
  shows "boundaryFires (grayOf gridImage) 64 by bx \<longleftrightarrow> 16 \<le> by"
proof -
  have r: "bx \<le> 56" "bx mod 8 = 0" "8 \<le> bx" "by mod 8 = 0"
    using grid_boundaries_range [OF assms] by simp_all
  have "(by + 2) mod 8 \<noteq> 0" using r(4) by presburger
  then have i: "gridWindow (by + 2) bx = [False, False, False, False]"
    by (simp add: gridWindow_shape [OF r(1,2,3)])
  have b: "gridWindow by bx = [16 \<le> by, False, False, False]"
    by (simp add: gridWindow_shape [OF r(1,2,3)] r(4))
  show ?thesis
  proof (cases "16 \<le> by")
    case True
    then show ?thesis unfolding grid_boundary [OF assms] i b using window_values(1) by simp
  next
    case False
    then show ?thesis unfolding grid_boundary [OF assms] i b using window_values(2) by simp
  qed
qed

lemma grid_compression:
  "detectCompressionArtifacts gridImage 64 64 = fmin (Num 1) (iter_add 42 (rnd (5 / 100)) (Num 0))"
proof -
  let ?B = "artifactBoundaries 64 64"
  have "filter (\<lambda>(by, bx). boundaryFires (grayOf gridImage) 64 by bx) ?B =
      filter (\<lambda>(by, bx). 16 \<le> by) ?B"
    by (rule filter_cong [OF refl]) (auto simp: grid_boundary_fires)
  also have "length \<dots> = 42"
    by (simp add: artifactBoundaries_def forRange_8_64)
  finally have "length (filter (\<lambda>(by, bx). boundaryFires (grayOf gridImage) 64 by bx) ?B) = 42" .
  then show ?thesis by (simp only: detectCompressionArtifacts_def artifactTotal_count)
qed

lemma grid_channels:
  assumes "c < 3"
  shows "channelValues gridImage c = replicate 1000 (Num 0)"
proof -
  have "fdiv (Num (of_nat (channel c (if gridWhite i then (255, 255, 255) else (0, 0, 0)))))
      (Num 255) = Num 0" if "i < 1000" for i
  proof -
    have "i div 64 < 16" using that by simp
    then have "\<not> gridWhite i" by (simp add: gridWhite_def)
    then show ?thesis by simp
  qed
  then have "map (\<lambda>i. fdiv (Num (of_nat (channel c (if gridWhite i then (255, 255, 255)
      else (0, 0, 0))))) (Num 255)) [0 ..< 1000] = map (\<lambda>i. Num 0) [0 ..< 1000]"
    by simp
  then show ?thesis
    unfolding gridImage_def channelValues_pixelsOf [OF assms] by (simp add: map_const_upt)
qed

lemma grid_result:
  "analyzePixelData gridImage 64 64 =
     \<lparr> isFake = True, confidence = Num 50, riskLevel = medium,
       details = \<lparr> frequencyAnomaly = Num 49, compressionArtifacts = Num 100,
                   textureInconsistency = Num 20, colorAnomalies = Num 20 \<rparr> \<rparr>"
proof -
  have t: "analyzeTextureConsistency gridImage 64 64 = rnd (2 / 10)"
    by (rule analyzeTextureConsistency_small) simp
  have "detectColorAnomalies gridImage = fmin (Num 1) (fadd (Num 0) (rnd (2 / 10)))"
    by (rule detectColorAnomalies_dark [where k = 1000]) (rule grid_channels)
  then have "analyzePixelData gridImage 64 64 =
      buildResult (fmin (Num 1) (fdiv (iter_add 49 (rnd (1 / 10)) (Num 0)) (Num 10)))
        (fmin (Num 1) (iter_add 42 (rnd (5 / 100)) (Num 0))) (rnd (2 / 10))
        (fmin (Num 1) (fadd (Num 0) (rnd (2 / 10))))"
    by (simp only: analyzePixelData_def grid_frequency grid_compression t)
  also have "\<dots> = \<lparr> isFake = True, confidence = Num 50, riskLevel = medium,
       details = \<lparr> frequencyAnomaly = Num 49, compressionArtifacts = Num 100,
                   textureInconsistency = Num 20, colorAnomalies = Num 20 \<rparr> \<rparr>"
    by (simp add: buildResult_def rawConfidence_def combinedScore_def classify_def Let_def
        iter_add_numeral feval del: iter_add_zero)
  finally show ?thesis .
qed

text \<open>
  Claim C4 against the code. A black image of 64 by 64 pixels with a white pixel at every
  block corner from row 16 on: all 49 sampled blocks and 42 block boundaries fire, the
  confidence before rounding lies between 50 and 50.5, so the result is \<open>isFake\<close> while
  its confidence field is 50.
\<close>

theorem isFake_confidence_50:
  "analyzeImageForDeepfake True (HTMLImageElement 64 64 gridImage) =
     Inr \<lparr> isFake = True, confidence = Num 50, riskLevel = medium,
       details = \<lparr> frequencyAnomaly = Num 49, compressionArtifacts = Num 100,
                   textureInconsistency = Num 20, colorAnomalies = Num 20 \<rparr> \<rparr>"
  by (simp add: analyzeImageForDeepfake_def grid_result)

end
